theory Spec2Isabelle
  imports Complex_Main "HOL-Library.AList"
begin

section \<open>Monte Carlo schedule and particle-transport simulations\<close>

text \<open>
  The two notebooks with sequential logic are embedded here: the project-schedule
  simulation (\<open>sample_task_duration\<close>, \<open>monte_carlo_schedule\<close>) and the radiation
  transport simulation (\<open>monte_carlo_radiation_transport\<close>).

  Conventions of the embedding.
  \<^item> A Python float is an IEEE binary64 number. A finite float is the real it denotes,
    and every arithmetic operation of the code (\<open>+\<close>, \<open>-\<close>, \<open>*\<close>, \<open>/\<close>) is the
    exact operation followed by \<open>double_round\<close>: rounding to the nearest double, ties
    to even, with 53 significant bits and the subnormal spacing \<open>2 powr - 1074\<close>.
    The value \<open>np.log\<close> returns is taken to be the rounded logarithm. The infinite
    float that the transport walk produces as \<open>-log(0.0)\<close> is the value \<open>PInf\<close> of the
    type \<open>xreal\<close>. Overflow of an arithmetic result to infinity and NaN are not
    modelled.
  \<^item> numpy's process-wide generator is a sequence of draws \<open>nat \<Rightarrow> real\<close> together
    with the number of draws already consumed; every function that draws takes that
    index and returns the advanced one.
  \<^item> A Python exception is a value \<open>Inl e\<close> of the sum type \<open>py_error + 'a\<close>.
  \<^item> A loop that may run forever returns an \<open>option\<close>; \<open>None\<close> is "does not return".
  \<^item> A Python \<open>dict\<close> is an association list in insertion order; its keys are
    distinct, which theorems about a \<open>tasks\<close> dictionary assume.
\<close>

subsection \<open>Errors and draws\<close>

datatype py_error = KeyError string | ValueError | ZeroDivisionError

type_synonym draws = "nat \<Rightarrow> real"

subsection \<open>Double-precision arithmetic\<close>

text \<open>
  \<open>round_even q\<close> is the integer nearest to \<open>q\<close>, the even one of the two when \<open>q\<close>
  lies half way. \<open>binade x\<close> is the exponent of the power of two at or below \<open>\<bar>x\<bar>\<close>,
  not below the least normal exponent \<open>- 1022\<close>; \<open>ulp x\<close> is the spacing of the doubles
  in that binade; \<open>mantissa x\<close> is the rounded significand in units of \<open>ulp x\<close>.
\<close>

definition round_even :: "real \<Rightarrow> int" where
  "round_even q =
     (let f = \<lfloor>q\<rfloor> in
      if q - of_int f < 1 / 2 then f
      else if 1 / 2 < q - of_int f then f + 1
      else if even f then f else f + 1)"

definition binade :: "real \<Rightarrow> int" where
  "binade x = max \<lfloor>log 2 \<bar>x\<bar>\<rfloor> (- 1022)"

definition ulp :: "real \<Rightarrow> real" where
  "ulp x = 2 powr of_int (binade x - 52)"

definition mantissa :: "real \<Rightarrow> int" where
  "mantissa x = round_even (\<bar>x\<bar> / ulp x)"

definition double_round :: "real \<Rightarrow> real" where
  "double_round x =
     (if x = 0 then 0
      else sgn x * (of_int (mantissa x) * ulp x))"

text \<open>The four operations of the code on finite doubles.\<close>

definition fadd :: "real \<Rightarrow> real \<Rightarrow> real" where
  "fadd a b = double_round (a + b)"

definition fsub :: "real \<Rightarrow> real \<Rightarrow> real" where
  "fsub a b = double_round (a - b)"

definition fmul :: "real \<Rightarrow> real \<Rightarrow> real" where
  "fmul a b = double_round (a * b)"

definition fdiv :: "real \<Rightarrow> real \<Rightarrow> real" where
  "fdiv a b = double_round (a / b)"

subsection \<open>Project schedule: \<open>sample_task_duration\<close> and \<open>monte_carlo_schedule\<close>\<close>

text \<open>
  One entry of the \<open>tasks\<close> dictionary: the list of predecessor names and the
  triple \<open>[optimistic, most likely, pessimistic]\<close>.
\<close>

record task_info =
  predecessors :: "string list"
  duration :: "real \<times> real \<times> real"

type_synonym tasks = "(string \<times> task_info) list"

text \<open>The locals \<open>mean\<close> and \<open>std_dev\<close> of \<open>sample_task_duration\<close>.\<close>

definition pert_mean :: "real \<times> real \<times> real \<Rightarrow> real" where
  "pert_mean triple =
     (case triple of (optimistic, most_likely, pessimistic) \<Rightarrow>
        fdiv (fadd (fadd optimistic (fmul 4 most_likely)) pessimistic) 6)"

definition pert_std_dev :: "real \<times> real \<times> real \<Rightarrow> real" where
  "pert_std_dev triple =
     (case triple of (optimistic, most_likely, pessimistic) \<Rightarrow>
        fdiv (fsub pessimistic optimistic) 6)"

text \<open>
  \<open>np.random.normal(mean, std_dev)\<close> is \<open>mean + std_dev * z\<close>, in double
  arithmetic, for the next standard-normal draw \<open>z\<close>; numpy raises \<open>ValueError\<close>
  for a negative scale.
\<close>

definition sample_task_duration ::
  "real \<times> real \<times> real \<Rightarrow> draws \<Rightarrow> nat \<Rightarrow> py_error + real \<times> nat" where
  "sample_task_duration triple z i =
     (let mean = pert_mean triple; std_dev = pert_std_dev triple in
      if std_dev < 0 then Inl ValueError
      else Inr (fadd mean (fmul std_dev (z i)), Suc i))"

text \<open>Python's \<open>max\<close> of a sequence: \<open>ValueError\<close> on an empty one.\<close>

fun py_max :: "real list \<Rightarrow> py_error + real" where
  "py_max [] = Inl ValueError"
| "py_max (x # xs) = Inr (fold max xs x)"

text \<open>
  The generator \<open>task_durations[p] for p in predecessors\<close>: the first name that is
  not yet a key of \<open>task_durations\<close> raises \<open>KeyError\<close>.
\<close>

fun lookup_finish :: "(string \<times> real) list \<Rightarrow> string list \<Rightarrow> py_error + real list" where
  "lookup_finish task_durations [] = Inr []"
| "lookup_finish task_durations (p # ps) =
     (case map_of task_durations p of
        None \<Rightarrow> Inl (KeyError p)
      | Some v \<Rightarrow>
          (case lookup_finish task_durations ps of
             Inl e \<Rightarrow> Inl e
           | Inr vs \<Rightarrow> Inr (v # vs)))"

text \<open>The \<open>if predecessors: ... else: start_time = 0\<close> statement.\<close>

definition start_time_of :: "(string \<times> real) list \<Rightarrow> string list \<Rightarrow> py_error + real" where
  "start_time_of task_durations preds =
     (if preds \<noteq> [] then
        (case lookup_finish task_durations preds of
           Inl e \<Rightarrow> Inl e
         | Inr vs \<Rightarrow> py_max vs)
      else Inr 0)"

text \<open>
  The loop \<open>for task, info in tasks.items()\<close>, in insertion order, with the
  dictionary \<open>task_durations\<close> and the draw index as state.
\<close>

fun schedule_tasks_loop ::
  "tasks \<Rightarrow> draws \<Rightarrow> nat \<Rightarrow> (string \<times> real) list \<Rightarrow> py_error + (string \<times> real) list \<times> nat" where
  "schedule_tasks_loop [] z i task_durations = Inr (task_durations, i)"
| "schedule_tasks_loop ((task, info) # rest) z i task_durations =
     (case sample_task_duration (duration info) z i of
        Inl e \<Rightarrow> Inl e
      | Inr (dur, i') \<Rightarrow>
          (case start_time_of task_durations (predecessors info) of
             Inl e \<Rightarrow> Inl e
           | Inr start_time \<Rightarrow>
               schedule_tasks_loop rest z i'
                 (AList.update task (fadd start_time dur) task_durations)))"

text \<open>The body of \<open>for _ in range(num_simulations)\<close>: one replication.\<close>

definition schedule_replication :: "tasks \<Rightarrow> draws \<Rightarrow> nat \<Rightarrow> py_error + real \<times> nat" where
  "schedule_replication tasks z i =
     (case schedule_tasks_loop tasks z i [] of
        Inl e \<Rightarrow> Inl e
      | Inr (task_durations, i') \<Rightarrow>
          (case py_max (map snd task_durations) of
             Inl e \<Rightarrow> Inl e
           | Inr project_duration \<Rightarrow> Inr (project_duration, i')))"

fun schedule_simulations_loop ::
  "nat \<Rightarrow> tasks \<Rightarrow> draws \<Rightarrow> nat \<Rightarrow> real list \<Rightarrow> py_error + real list \<times> nat" where
  "schedule_simulations_loop 0 tasks z i project_durations = Inr (project_durations, i)"
| "schedule_simulations_loop (Suc n) tasks z i project_durations =
     (case schedule_replication tasks z i of
        Inl e \<Rightarrow> Inl e
      | Inr (project_duration, i') \<Rightarrow>
          schedule_simulations_loop n tasks z i' (project_durations @ [project_duration]))"

text \<open>\<open>range(num_simulations)\<close> is empty for a count below \<open>1\<close>.\<close>

definition monte_carlo_schedule ::
  "tasks \<Rightarrow> int \<Rightarrow> draws \<Rightarrow> nat \<Rightarrow> py_error + real list \<times> nat" where
  "monte_carlo_schedule tasks num_simulations z i =
     schedule_simulations_loop (nat num_simulations) tasks z i []"

subsection \<open>Vocabulary for the schedule properties\<close>

text \<open>
  The finish time recorded for a task, read where the key is present, and the latest
  finish time among a list of predecessors (\<open>0\<close> for no predecessors).
\<close>

definition finish_of :: "(string \<times> real) list \<Rightarrow> string \<Rightarrow> real" where
  "finish_of task_durations t = (case map_of task_durations t of Some v \<Rightarrow> v | None \<Rightarrow> 0)"

definition latest_finish :: "(string \<times> real) list \<Rightarrow> string list \<Rightarrow> real" where
  "latest_finish task_durations preds =
     (if preds = [] then 0 else Max (finish_of task_durations ` set preds))"

text \<open>The duration that the \<open>k\<close>-th task gets in a replication started at draw \<open>i\<close>.\<close>

definition sampled_duration :: "tasks \<Rightarrow> draws \<Rightarrow> nat \<Rightarrow> nat \<Rightarrow> real" where
  "sampled_duration tasks z i k =
     fadd (pert_mean (duration (snd (tasks ! k))))
       (fmul (pert_std_dev (duration (snd (tasks ! k)))) (z (i + k)))"


text \<open>
  \<open>preds_first seen tasks\<close>: the insertion order lists every task after all of its
  predecessors, given the names in \<open>seen\<close> before the first task.
\<close>

fun preds_first :: "string set \<Rightarrow> tasks \<Rightarrow> bool" where
  "preds_first seen [] = True"
| "preds_first seen ((task, info) # rest) =
     (set (predecessors info) \<subseteq> seen \<and> preds_first (insert task seen) rest)"

text \<open>No task has its pessimistic estimate below its optimistic one.\<close>

definition spread_ok :: "tasks \<Rightarrow> bool" where
  "spread_ok tasks = (\<forall>(task, info) \<in> set tasks. 0 \<le> pert_std_dev (duration info))"

text \<open>
  The dependency graph: \<open>(p, t)\<close> is an edge when task \<open>t\<close> names \<open>p\<close> as a
  predecessor. A graph has a cycle when an edge path leads from a task to itself, and an
  unknown predecessor when an edge starts at a name that is no key of \<open>tasks\<close>.
\<close>

definition depends_on :: "tasks \<Rightarrow> (string \<times> string) set" where
  "depends_on tasks =
     set (concat (map (\<lambda>(task, info). map (\<lambda>p. (p, task)) (predecessors info)) tasks))"

definition has_cycle :: "tasks \<Rightarrow> bool" where
  "has_cycle tasks = (\<exists>(p, t) \<in> (depends_on tasks)\<^sup>+. p = t)"

definition unknown_predecessor :: "tasks \<Rightarrow> bool" where
  "unknown_predecessor tasks = (\<exists>(p, t) \<in> depends_on tasks. p \<notin> fst ` set tasks)"

text \<open>
  Longest-path analysis, stated on its own: a dependency path is a non-empty list of
  tasks in which each task is a predecessor of the next; a chain is a dependency path
  that begins at a task without predecessors; the length of a path is the sum of the
  most-likely durations on it; \<open>longest_chain tasks cp\<close> says that \<open>cp\<close> is the
  greatest length of a chain.
\<close>

definition most_likely_of :: "tasks \<Rightarrow> string \<Rightarrow> real" where
  "most_likely_of tasks t =
     (case map_of tasks t of Some info \<Rightarrow> fst (snd (duration info)) | None \<Rightarrow> 0)"

fun dep_path :: "tasks \<Rightarrow> string list \<Rightarrow> bool" where
  "dep_path tasks [] = False"
| "dep_path tasks [t] = (t \<in> fst ` set tasks)"
| "dep_path tasks (p # t # rest) =
     (p \<in> fst ` set tasks \<and> (p, t) \<in> depends_on tasks \<and> dep_path tasks (t # rest))"

definition dep_chain :: "tasks \<Rightarrow> string list \<Rightarrow> bool" where
  "dep_chain tasks path =
     (dep_path tasks path \<and>
      (case map_of tasks (hd path) of Some info \<Rightarrow> predecessors info = [] | None \<Rightarrow> False))"

definition path_length :: "tasks \<Rightarrow> string list \<Rightarrow> real" where
  "path_length tasks path = sum_list (map (most_likely_of tasks) path)"

definition longest_chain :: "tasks \<Rightarrow> real \<Rightarrow> bool" where
  "longest_chain tasks cp =
     ((\<exists>path. dep_chain tasks path \<and> path_length tasks path = cp) \<and>
      (\<forall>path. dep_chain tasks path \<longrightarrow> path_length tasks path \<le> cp))"

definition nonneg_durations :: "tasks \<Rightarrow> bool" where
  "nonneg_durations tasks = (\<forall>t \<in> fst ` set tasks. 0 \<le> most_likely_of tasks t)"

text \<open>
  Durations on which the double arithmetic of a replication is exact: every most-likely
  duration is an integer multiple of one power of two \<open>2 ^ e\<close>, and six times the
  sum of their absolute values stays below \<open>2 ^ 53 * 2 ^ e\<close>. (\<open>e = 0\<close>: integer
  durations.)
\<close>

definition on_grid :: "int \<Rightarrow> real \<Rightarrow> bool" where
  "on_grid e x = (of_int \<lfloor>x / 2 powr of_int e\<rfloor> * 2 powr of_int e = x)"

definition exact_durations :: "int \<Rightarrow> tasks \<Rightarrow> bool" where
  "exact_durations e tasks =
     (- 1074 \<le> e \<and> e \<le> 970 \<and>
      (\<forall>(task, info) \<in> set tasks. on_grid e (fst (snd (duration info)))) \<and>
      6 * sum_list (map (\<lambda>(task, info). \<bar>fst (snd (duration info))\<bar>) tasks)
        < 2 ^ 53 * 2 powr of_int e)"

definition zero_variance :: "tasks \<Rightarrow> bool" where
  "zero_variance tasks =
     (\<forall>(task, info) \<in> set tasks.
        case duration info of (optimistic, most_likely, pessimistic) \<Rightarrow>
          optimistic = most_likely \<and> most_likely = pessimistic)"

subsection \<open>Concrete task graphs and draws\<close>



definition tasks_fixed :: tasks where
  "tasks_fixed =
     [(''Task A'', \<lparr>predecessors = [], duration = (4, 4, 4)\<rparr>),
      (''Task B'', \<lparr>predecessors = [''Task A''], duration = (5, 5, 5)\<rparr>),
      (''Task C'', \<lparr>predecessors = [''Task A''], duration = (2, 2, 2)\<rparr>),
      (''Task D'', \<lparr>predecessors = [''Task B'', ''Task C''], duration = (3, 3, 3)\<rparr>)]"


text \<open>
  One task whose three estimates are the float \<open>0.1\<close>, that is the double
  \<open>3602879701896397 / 2 ^ 55\<close>.
\<close>

definition tenth :: real where
  "tenth = 3602879701896397 / 2 ^ 55"

definition tasks_tenth :: tasks where
  "tasks_tenth = [(''A'', \<lparr>predecessors = [], duration = (tenth, tenth, tenth)\<rparr>)]"




definition tasks_late_first :: tasks where
  "tasks_late_first =
     [(''Test'', \<lparr>predecessors = [''Build''], duration = (1, 1, 1)\<rparr>),
      (''Build'', \<lparr>predecessors = [], duration = (2, 2, 2)\<rparr>)]"

definition tasks_negative :: tasks where
  "tasks_negative =
     [(''A'', \<lparr>predecessors = [], duration = (- 5, - 5, - 5)\<rparr>),
      (''B'', \<lparr>predecessors = [''A''], duration = (3, 3, 3)\<rparr>)]"

definition normal_draws :: draws where
  "normal_draws k = (if k = 0 then 1 else if k = 1 then - 1 else if k = 2 then 3 else 0)"


definition zero_draws :: draws where
  "zero_draws k = 0"

subsection \<open>Radiation transport: extended positions\<close>

text \<open>
  A position or distance: a finite double or \<open>+\<infinity>\<close>. (\<open>max_distance\<close> is taken to
  be finite or \<open>+\<infinity>\<close>; \<open>-\<infinity>\<close> and NaN are left out.) \<open>xadd\<close> is the float
  addition of \<open>position += step\<close>.
\<close>

datatype xreal = Fin real | PInf

fun xadd :: "xreal \<Rightarrow> xreal \<Rightarrow> xreal" where
  "xadd (Fin a) (Fin b) = Fin (fadd a b)"
| "xadd _ _ = PInf"

text \<open>\<open>xge a b\<close> is the float comparison \<open>a >= b\<close>, \<open>xlt a b\<close> is \<open>a < b\<close>.\<close>

fun xge :: "xreal \<Rightarrow> xreal \<Rightarrow> bool" where
  "xge PInf _ = True"
| "xge (Fin a) (Fin b) = (b \<le> a)"
| "xge (Fin a) PInf = False"

fun xlt :: "xreal \<Rightarrow> xreal \<Rightarrow> bool" where
  "xlt (Fin a) (Fin b) = (a < b)"
| "xlt (Fin a) PInf = True"
| "xlt PInf _ = False"

text \<open>
  \<open>-np.log(u)\<close> for a draw \<open>u\<close> of \<open>np.random.rand()\<close>, which lies in \<open>[0, 1)\<close>:
  numpy returns \<open>-inf\<close> for \<open>log(0.0)\<close>, so the step is \<open>+inf\<close> there.
\<close>

definition neg_log :: "real \<Rightarrow> xreal" where
  "neg_log u = (if u = 0 then PInf else Fin (double_round (- ln u)))"

subsection \<open>Radiation transport\<close>

text \<open>
  The outcome of one particle: \<open>Transmitted position\<close> when the particle left the
  medium (the code appends \<open>position\<close> to \<open>transmissions\<close>), \<open>Absorbed\<close> when the
  loop was left by the absorption \<open>break\<close>.
\<close>

datatype outcome = Transmitted xreal | Absorbed

datatype walk_step = Stop outcome nat | Continue xreal nat

text \<open>The first two statements of the loop body: draw the step, add it to the position.\<close>

definition advance :: "draws \<Rightarrow> nat \<Rightarrow> xreal \<Rightarrow> xreal" where
  "advance u i position = xadd position (neg_log (u i))"

text \<open>One pass through the body of \<open>while True\<close>, from draw index \<open>i\<close>.\<close>

definition walk_iteration ::
  "real \<Rightarrow> real \<Rightarrow> xreal \<Rightarrow> draws \<Rightarrow> nat \<Rightarrow> xreal \<Rightarrow> walk_step" where
  "walk_iteration absorption_prob scattering_prob max_distance u i position =
     (let position' = advance u i position in
      if xge position' max_distance then Stop (Transmitted position') (Suc i)
      else
        (let rand = u (Suc i) in
         if rand < absorption_prob then Stop Absorbed (Suc (Suc i))
         else if rand < absorption_prob + scattering_prob then Continue position' (Suc (Suc i))
         else Continue position' (Suc (Suc i))))"

partial_function (option) particle_walk ::
  "real \<Rightarrow> real \<Rightarrow> xreal \<Rightarrow> draws \<Rightarrow> nat \<Rightarrow> xreal \<Rightarrow> (outcome \<times> nat) option" where
  "particle_walk absorption_prob scattering_prob max_distance u i position =
     (case walk_iteration absorption_prob scattering_prob max_distance u i position of
        Stop result i' \<Rightarrow> Some (result, i')
      | Continue position' i' \<Rightarrow>
          particle_walk absorption_prob scattering_prob max_distance u i' position')"

text \<open>The \<open>for _ in range(num_particles)\<close> loop, with \<open>transmissions\<close> as accumulator.\<close>

fun particles_loop ::
  "nat \<Rightarrow> real \<Rightarrow> real \<Rightarrow> xreal \<Rightarrow> draws \<Rightarrow> nat \<Rightarrow> xreal list \<Rightarrow> (xreal list \<times> nat) option" where
  "particles_loop 0 absorption_prob scattering_prob max_distance u i transmissions =
     Some (transmissions, i)"
| "particles_loop (Suc n) absorption_prob scattering_prob max_distance u i transmissions =
     (case particle_walk absorption_prob scattering_prob max_distance u i (Fin 0) of
        None \<Rightarrow> None
      | Some (Transmitted position, i') \<Rightarrow>
          particles_loop n absorption_prob scattering_prob max_distance u i'
            (transmissions @ [position])
      | Some (Absorbed, i') \<Rightarrow>
          particles_loop n absorption_prob scattering_prob max_distance u i' transmissions)"

text \<open>
  \<open>range(num_particles)\<close> is empty for a negative count; the final division raises
  \<open>ZeroDivisionError\<close> exactly when \<open>num_particles\<close> is \<open>0\<close>.
\<close>

definition monte_carlo_radiation_transport ::
  "int \<Rightarrow> real \<Rightarrow> real \<Rightarrow> xreal \<Rightarrow> draws \<Rightarrow> nat \<Rightarrow> (py_error + real \<times> nat) option" where
  "monte_carlo_radiation_transport num_particles absorption_prob scattering_prob max_distance u i =
     (case particles_loop (nat num_particles) absorption_prob scattering_prob max_distance u i [] of
        None \<Rightarrow> None
      | Some (transmissions, i') \<Rightarrow>
          if num_particles = 0 then Some (Inl ZeroDivisionError)
          else Some (Inr (fdiv (real (length transmissions)) (real_of_int num_particles), i')))"

text \<open>
  The states at the head of the \<open>while True\<close> loop that one walk passes through:
  \<open>in_flight a s D u i0 i position\<close> holds when the walk started at draw index \<open>i0\<close>
  is at the loop head with draw index \<open>i\<close> and the given position.
\<close>

inductive in_flight :: "real \<Rightarrow> real \<Rightarrow> xreal \<Rightarrow> draws \<Rightarrow> nat \<Rightarrow> nat \<Rightarrow> xreal \<Rightarrow> bool"
  for absorption_prob scattering_prob max_distance u i0 where
  start: "in_flight absorption_prob scattering_prob max_distance u i0 i0 (Fin 0)"
| loop: "in_flight absorption_prob scattering_prob max_distance u i0 i position \<Longrightarrow>
         walk_iteration absorption_prob scattering_prob max_distance u i position =
           Continue position' i' \<Longrightarrow>
         in_flight absorption_prob scattering_prob max_distance u i0 i' position'"

code_pred in_flight .


text \<open>
  Draws that \<open>np.random.rand()\<close> can return, all multiples of \<open>1 / 2 ^ 53\<close>: a first
  draw of \<open>1/16\<close>, then always the largest draw below \<open>1\<close>. \<open>stall_position\<close> is
  the position after the first step on these draws.
\<close>

definition stall_draws :: draws where
  "stall_draws k = (if k = 0 then 1 / 16 else 1 - 1 / 2 ^ 53)"

definition stall_position :: real where
  "stall_position = double_round (- ln (1 / 16))"

definition demo_draws :: draws where
  "demo_draws k = (if k = 0 then 1 / 2 else if k = 1 then 3 / 4
                   else if k = 2 then 1 / 4 else if k = 3 then 1 / 4 else 0)"

section \<open>Properties of double rounding\<close>

subsection \<open>Rounding to an integer\<close>





lemma round_even_lower: "\<lfloor>q\<rfloor> \<le> round_even q"
  by (simp add: round_even_def Let_def)

lemma round_even_upper: "round_even q \<le> \<lfloor>q\<rfloor> + 1"
  by (simp add: round_even_def Let_def)

lemma round_even_of_int [simp]: "round_even (of_int n) = n"
  by (simp add: round_even_def Let_def)

lemma round_even_near:
  assumes "\<bar>q - of_int n\<bar> < 1 / 2"
  shows "round_even q = n"
proof (cases "of_int n \<le> q")
  case True
  with assms have "\<lfloor>q\<rfloor> = n" by (intro floor_unique) linarith+
  with assms True show ?thesis by (simp add: round_even_def Let_def)
next
  case False
  with assms have "of_int (n - 1) \<le> q" "q < of_int (n - 1) + 1" by (simp; linarith?)+
  then have f: "\<lfloor>q\<rfloor> = n - 1" by (rule floor_unique)
  from False assms have "1 / 2 < q - of_int (n - 1)" by simp
  with f show ?thesis by (simp add: round_even_def Let_def)
qed


lemma round_even_ge_int:
  assumes "of_int n \<le> q"
  shows "n \<le> round_even q"
proof -
  from assms have "n \<le> \<lfloor>q\<rfloor>" by (simp add: le_floor_iff)
  with round_even_lower[of q] show ?thesis by simp
qed

lemma round_even_le_int:
  assumes "q \<le> of_int n"
  shows "round_even q \<le> n"
proof (cases "q = of_int n")
  case True
  then show ?thesis by simp
next
  case False
  with assms have "q < of_int n" by simp
  then have "\<lfloor>q\<rfloor> < n" by (simp add: floor_less_iff)
  with round_even_upper[of q] show ?thesis by simp
qed

lemma round_even_mono:
  assumes "q \<le> r"
  shows "round_even q \<le> round_even r"
proof (cases "\<lfloor>q\<rfloor> = \<lfloor>r\<rfloor>")
  case True
  with assms show ?thesis by (auto simp: round_even_def Let_def)
next
  case False
  with assms have "\<lfloor>q\<rfloor> < \<lfloor>r\<rfloor>" using floor_mono[OF assms] by simp
  with round_even_upper[of q] round_even_lower[of r] show ?thesis by simp
qed

subsection \<open>Binades\<close>

lemma binade_minus [simp]: "binade (- x) = binade x"
  by (simp add: binade_def)

lemma ulp_minus [simp]: "ulp (- x) = ulp x"
  by (simp add: ulp_def)

lemma ulp_pos [simp]: "0 < ulp x"
  by (simp add: ulp_def)

lemma ulp_nonneg [simp]: "0 \<le> ulp x"
  by (simp add: ulp_def)

lemma ulp_neq0 [simp]: "ulp x \<noteq> 0"
  by (simp add: ulp_def)

lemma binade_ge [simp]: "- 1022 \<le> binade x"
  by (simp add: binade_def)

lemma floor_log2_bounds:
  assumes "x \<noteq> 0"
  shows "2 powr of_int \<lfloor>log 2 \<bar>x\<bar>\<rfloor> \<le> \<bar>x\<bar>" and "\<bar>x\<bar> < 2 powr of_int (\<lfloor>log 2 \<bar>x\<bar>\<rfloor> + 1)"
  using floor_log_eq_powr_iff[of "\<bar>x\<bar>" 2 "\<lfloor>log 2 \<bar>x\<bar>\<rfloor>"] assms by simp_all

lemma binade_upper:
  assumes "x \<noteq> 0"
  shows "\<bar>x\<bar> < 2 powr of_int (binade x + 1)"
proof -
  have "(2::real) powr of_int (\<lfloor>log 2 \<bar>x\<bar>\<rfloor> + 1) \<le> 2 powr of_int (binade x + 1)"
    by (intro powr_mono) (simp_all add: binade_def)
  with floor_log2_bounds(2)[OF assms] show ?thesis by linarith
qed

lemma binade_lower:
  assumes "x \<noteq> 0" and "- 1022 < binade x"
  shows "2 powr of_int (binade x) \<le> \<bar>x\<bar>"
proof -
  from assms(2) have "binade x = \<lfloor>log 2 \<bar>x\<bar>\<rfloor>" by (simp add: binade_def max_def split: if_splits)
  with floor_log2_bounds(1)[OF assms(1)] show ?thesis by simp
qed

lemma binade_eqI:
  assumes "x \<noteq> 0" and "- 1022 \<le> e" and "\<bar>x\<bar> < 2 powr of_int (e + 1)"
    and "- 1022 < e \<Longrightarrow> 2 powr of_int e \<le> \<bar>x\<bar>"
  shows "binade x = e"
proof -
  from assms(1) have pos: "0 < \<bar>x\<bar>" by simp
  have upper: "\<lfloor>log 2 \<bar>x\<bar>\<rfloor> \<le> e"
  proof -
    from assms(3) pos have "log 2 \<bar>x\<bar> < of_int (e + 1)"
      by (simp add: log_less_iff)
    then have "\<lfloor>log 2 \<bar>x\<bar>\<rfloor> < e + 1" by (simp only: floor_less_iff)
    then show ?thesis by simp
  qed
  show ?thesis
  proof (cases "- 1022 < e")
    case True
    from assms(4)[OF True] pos have "of_int e \<le> log 2 \<bar>x\<bar>"
      by (simp add: le_log_iff)
    then have "e \<le> \<lfloor>log 2 \<bar>x\<bar>\<rfloor>" by (simp add: le_floor_iff)
    with upper True show ?thesis by (simp add: binade_def)
  next
    case False
    with assms(2) have "e = - 1022" by simp
    with upper show ?thesis by (simp add: binade_def)
  qed
qed

lemma binade_mono:
  assumes "x \<noteq> 0" and "\<bar>x\<bar> \<le> \<bar>y\<bar>"
  shows "binade x \<le> binade y"
proof -
  from assms have "log 2 \<bar>x\<bar> \<le> log 2 \<bar>y\<bar>" by simp
  then have "\<lfloor>log 2 \<bar>x\<bar>\<rfloor> \<le> \<lfloor>log 2 \<bar>y\<bar>\<rfloor>" by (rule floor_mono)
  then show ?thesis by (simp add: binade_def)
qed

lemma two_powr_diff: "(2::real) powr of_int a / 2 powr of_int b = 2 powr of_int (a - b)"
  by (simp add: powr_diff)

lemma ulp_times_53: "2 ^ 53 * ulp x = 2 powr of_int (binade x + 1)"
proof -
  have "(2::real) ^ 53 * ulp x = 2 powr of_int 53 * 2 powr of_int (binade x - 52)"
    by (simp add: powr_int ulp_def)
  also have "\<dots> = 2 powr (of_int 53 + of_int (binade x - 52))"
    by (rule powr_add[symmetric])
  also have "of_int 53 + of_int (binade x - 52) = (of_int (binade x + 1) :: real)" by simp
  finally show ?thesis .
qed

lemma ulp_times_52: "2 ^ 52 * ulp x = 2 powr of_int (binade x)"
proof -
  have "(2::real) ^ 52 * ulp x = 2 powr of_int 52 * 2 powr of_int (binade x - 52)"
    by (simp add: powr_int ulp_def)
  also have "\<dots> = 2 powr (of_int 52 + of_int (binade x - 52))"
    by (rule powr_add[symmetric])
  also have "of_int 52 + of_int (binade x - 52) = (of_int (binade x) :: real)" by simp
  finally show ?thesis .
qed

lemma quotient_upper:
  assumes "x \<noteq> 0"
  shows "\<bar>x\<bar> / ulp x < 2 ^ 53"
proof -
  from binade_upper[OF assms] have "\<bar>x\<bar> / ulp x < 2 powr of_int (binade x + 1) / ulp x"
    by (simp add: divide_strict_right_mono)
  also have "\<dots> = 2 powr of_int 53"
    unfolding ulp_def two_powr_diff by simp
  also have "\<dots> = 2 ^ 53" by (simp add: powr_int)
  finally show ?thesis .
qed

lemma quotient_lower:
  assumes "x \<noteq> 0" and "- 1022 < binade x"
  shows "2 ^ 52 \<le> \<bar>x\<bar> / ulp x"
proof -
  have "(2::real) ^ 52 = 2 powr of_int 52" by (simp add: powr_int)
  also have "\<dots> = 2 powr of_int (binade x) / ulp x"
    unfolding ulp_def two_powr_diff by simp
  also from binade_lower[OF assms] have "\<dots> \<le> \<bar>x\<bar> / ulp x"
    by (intro divide_right_mono) simp_all
  finally show ?thesis .
qed


lemma mantissa_upper:
  assumes "x \<noteq> 0"
  shows "mantissa x \<le> 2 ^ 53"
proof -
  from quotient_upper[OF assms] have "\<bar>x\<bar> / ulp x \<le> of_int (2 ^ 53)" by simp
  then show ?thesis unfolding mantissa_def by (rule round_even_le_int)
qed

lemma mantissa_lower:
  assumes "x \<noteq> 0" and "- 1022 < binade x"
  shows "2 ^ 52 \<le> mantissa x"
proof -
  from quotient_lower[OF assms] have "of_int (2 ^ 52) \<le> \<bar>x\<bar> / ulp x" by simp
  then show ?thesis unfolding mantissa_def by (rule round_even_ge_int)
qed

lemma mantissa_nonneg: "0 \<le> mantissa x"
proof -
  have "of_int 0 \<le> \<bar>x\<bar> / ulp x" by simp
  then show ?thesis unfolding mantissa_def by (rule round_even_ge_int)
qed

lemma double_round_eq: "x \<noteq> 0 \<Longrightarrow> double_round x = sgn x * (of_int (mantissa x) * ulp x)"
  by (simp add: double_round_def)

lemma double_round_zero [simp]: "double_round 0 = 0"
  by (simp add: double_round_def)

lemma mantissa_minus [simp]: "mantissa (- x) = mantissa x"
  by (simp add: mantissa_def)

lemma double_round_minus: "double_round (- x) = - double_round x"
  by (simp add: double_round_def sgn_minus)

lemma double_round_pos: "0 < x \<Longrightarrow> double_round x = of_int (mantissa x) * ulp x"
  by (simp add: double_round_eq)

lemma double_round_nonneg:
  assumes "0 \<le> x"
  shows "0 \<le> double_round x"
proof (cases "x = 0")
  case True
  then show ?thesis by simp
next
  case False
  with assms have "0 < x" by simp
  moreover from mantissa_nonneg[of x] have "0 \<le> real_of_int (mantissa x) * ulp x"
    by (intro mult_nonneg_nonneg) simp_all
  ultimately show ?thesis by (simp add: double_round_pos)
qed

lemma double_round_pos_upper:
  assumes "0 < x"
  shows "double_round x \<le> 2 powr of_int (binade x + 1)"
proof -
  from assms have "x \<noteq> 0" by simp
  from mantissa_upper[OF this] have "real_of_int (mantissa x) \<le> 2 ^ 53"
    by (metis of_int_le_iff of_int_numeral of_int_power)
  then have "of_int (mantissa x) * ulp x \<le> 2 ^ 53 * ulp x"
    by (simp add: mult_right_mono)
  also have "\<dots> = 2 powr of_int (binade x + 1)"
    by (rule ulp_times_53)
  finally show ?thesis using assms by (simp add: double_round_pos)
qed

lemma double_round_pos_lower:
  assumes "0 < x" and "- 1022 < binade x"
  shows "2 powr of_int (binade x) \<le> double_round x"
proof -
  from assms have "x \<noteq> 0" by simp
  from mantissa_lower[OF this assms(2)] have "2 ^ 52 \<le> real_of_int (mantissa x)"
    by (metis of_int_le_iff of_int_numeral of_int_power)
  then have "2 ^ 52 * ulp x \<le> of_int (mantissa x) * ulp x"
    by (simp add: mult_right_mono)
  moreover have "2 ^ 52 * ulp x = 2 powr of_int (binade x)"
    by (rule ulp_times_52)
  moreover from assms have "double_round x = of_int (mantissa x) * ulp x"
    by (simp add: double_round_pos)
  ultimately show ?thesis by linarith
qed

lemma double_round_mono_pos:
  assumes "0 < x" and "x \<le> y"
  shows "double_round x \<le> double_round y"
proof -
  from assms have y: "0 < y" by simp
  from assms have b: "binade x \<le> binade y" by (intro binade_mono) simp_all
  show ?thesis
  proof (cases "binade x = binade y")
    case True
    then have u: "ulp x = ulp y" by (simp add: ulp_def)
    from assms y have "\<bar>x\<bar> / ulp x \<le> \<bar>y\<bar> / ulp y"
      unfolding u by (intro divide_right_mono) simp_all
    then have "mantissa x \<le> mantissa y" unfolding mantissa_def by (rule round_even_mono)
    then have "real_of_int (mantissa x) * ulp x \<le> real_of_int (mantissa y) * ulp y"
      unfolding u by (simp add: mult_right_mono)
    with assms y show ?thesis by (simp add: double_round_pos)
  next
    case False
    with b have lt: "binade x + 1 \<le> binade y" by simp
    then have "- 1022 < binade y" using binade_ge[of x] by linarith
    from double_round_pos_lower[OF y this] have "2 powr of_int (binade y) \<le> double_round y" .
    moreover from lt have "(2::real) powr of_int (binade x + 1) \<le> 2 powr of_int (binade y)"
      by (intro powr_mono) simp_all
    moreover note double_round_pos_upper[OF assms(1)]
    ultimately show ?thesis by linarith
  qed
qed

lemma double_round_mono:
  assumes "x \<le> y"
  shows "double_round x \<le> double_round y"
proof -
  consider "0 < x" | "x \<le> 0" "0 \<le> y" | "y < 0" by linarith
  then show ?thesis
  proof cases
    case 1
    then show ?thesis using assms by (rule double_round_mono_pos)
  next
    case 2
    from 2(1) have "0 \<le> - x" by simp
    from double_round_nonneg[OF this] have "double_round x \<le> 0"
      by (simp add: double_round_minus)
    with double_round_nonneg[OF 2(2)] show ?thesis by simp
  next
    case 3
    with assms have "0 < - y" "- y \<le> - x" by simp_all
    from double_round_mono_pos[OF this] show ?thesis by (simp add: double_round_minus)
  qed
qed

subsection \<open>Values that are doubles\<close>

lemma double_round_eval:
  assumes "0 < x" and "- 1022 \<le> e" and "x < 2 powr of_int (e + 1)"
    and "- 1022 < e \<Longrightarrow> 2 powr of_int e \<le> x"
    and "\<bar>x / 2 powr of_int (e - 52) - of_int n\<bar> < 1 / 2"
  shows "double_round x = of_int n * 2 powr of_int (e - 52)"
proof -
  from assms have "binade x = e" by (intro binade_eqI) simp_all
  then have u: "ulp x = 2 powr of_int (e - 52)" by (simp add: ulp_def)
  from assms(1,5) have "mantissa x = n"
    unfolding mantissa_def u by (intro round_even_near) simp
  with assms(1) u show ?thesis by (simp add: double_round_pos)
qed

lemma double_round_exact_pos:
  assumes k: "0 < k" "k < 2 ^ 53" and j: "- 1074 \<le> j"
  shows "double_round (of_int k * 2 powr of_int j) = of_int k * 2 powr of_int j"
proof -
  let ?x = "real_of_int k * 2 powr of_int j"
  from k have x: "0 < ?x" by simp
  have "?x < 2 ^ 53 * 2 powr of_int j"
  proof -
    from k(2) have "real_of_int k < 2 ^ 53"
      by (metis of_int_less_iff of_int_numeral of_int_power)
    then show ?thesis by simp
  qed
  also have "\<dots> = 2 powr of_int 53 * 2 powr of_int j" by (simp add: powr_int)
  also have "\<dots> = 2 powr (of_int 53 + of_int j)" by (rule powr_add[symmetric])
  finally have lt: "?x < 2 powr (of_int 53 + of_int j)" .
  with x have "log 2 ?x < of_int 53 + of_int j" by (simp add: log_less_iff)
  then have "log 2 ?x < of_int (53 + j)" by simp
  then have "\<lfloor>log 2 ?x\<rfloor> < 53 + j" by (simp only: floor_less_iff)
  with j x have b: "binade ?x \<le> j + 52" by (simp add: binade_def)
  define d where "d = nat (j + 52 - binade ?x)"
  have "2 powr of_int j / ulp ?x = 2 powr of_int (j - (binade ?x - 52))"
    unfolding ulp_def by (rule two_powr_diff)
  also from b have "j - (binade ?x - 52) = int d" by (simp add: d_def)
  also have "2 powr of_int (int d) = (2::real) ^ d" by (simp add: powr_realpow)
  finally have q: "2 powr of_int j / ulp ?x = 2 ^ d" .
  from x have "\<bar>?x\<bar> / ulp ?x = of_int k * (2 powr of_int j / ulp ?x)" by simp
  also have "\<dots> = of_int (k * 2 ^ d)" by (simp add: q)
  finally have e: "\<bar>?x\<bar> / ulp ?x = of_int (k * 2 ^ d)" .
  have "mantissa ?x = k * 2 ^ d" unfolding mantissa_def e by (rule round_even_of_int)
  then have "of_int (mantissa ?x) * ulp ?x = of_int k * (2 ^ d * ulp ?x)" by simp
  also from q have "2 ^ d * ulp ?x = 2 powr of_int j"
    by (simp add: field_simps)
  finally show ?thesis using x by (simp add: double_round_pos)
qed

lemma double_round_exact:
  assumes "\<bar>k\<bar> < 2 ^ 53" and "- 1074 \<le> j"
  shows "double_round (of_int k * 2 powr of_int j) = of_int k * 2 powr of_int j"
proof -
  consider "k = 0" | "0 < k" | "k < 0" by linarith
  then show ?thesis
  proof cases
    case 1
    then show ?thesis by simp
  next
    case 2
    with assms show ?thesis by (intro double_round_exact_pos) simp_all
  next
    case 3
    with assms have "double_round (of_int (- k) * 2 powr of_int j) = of_int (- k) * 2 powr of_int j"
      by (intro double_round_exact_pos) simp_all
    then show ?thesis using double_round_minus[of "of_int k * 2 powr of_int j"] by simp
  qed
qed

lemma double_round_of_int:
  assumes "\<bar>k\<bar> < 2 ^ 53"
  shows "double_round (of_int k) = of_int k"
  using double_round_exact[OF assms, of 0] by simp

lemma double_round_idem: "double_round (double_round x) = double_round x"
proof -
  have pos: "double_round (double_round x) = double_round x" if "0 < x" for x
  proof -
    from that have nz: "x \<noteq> 0" by simp
    have j: "- 1074 \<le> binade x - 52" using binade_ge[of x] by linarith
    have dr: "double_round x = of_int (mantissa x) * 2 powr of_int (binade x - 52)"
      using that by (simp add: double_round_pos ulp_def)
    show ?thesis
    proof (cases "mantissa x = 2 ^ 53")
      case True
      have "double_round x = 2 ^ 53 * ulp x"
        using that True by (simp add: double_round_pos)
      also have "\<dots> = of_int 1 * 2 powr of_int (binade x + 1)"
        by (simp only: ulp_times_53 of_int_1 mult_1)
      finally have eq: "double_round x = of_int 1 * 2 powr of_int (binade x + 1)" .
      have "double_round (of_int 1 * 2 powr of_int (binade x + 1)) =
          of_int 1 * 2 powr of_int (binade x + 1)"
      proof (rule double_round_exact)
        show "\<bar>1::int\<bar> < 2 ^ 53" by simp
        show "- 1074 \<le> binade x + 1" using binade_ge[of x] by linarith
      qed
      with eq show ?thesis by simp
    next
      case False
      with mantissa_upper[OF nz] mantissa_nonneg[of x] have "\<bar>mantissa x\<bar> < 2 ^ 53" by simp
      from double_round_exact[OF this j] dr show ?thesis by simp
    qed
  qed
  consider "x = 0" | "0 < x" | "x < 0" by linarith
  then show ?thesis
  proof cases
    case 1
    then show ?thesis by simp
  next
    case 2
    then show ?thesis by (rule pos)
  next
    case 3
    then have "0 < - x" by simp
    from pos[OF this] show ?thesis by (simp add: double_round_minus)
  qed
qed

subsection \<open>Rounding error and absorption\<close>



lemma double_round_absorb:
  assumes d: "double_round p = p" and p: "0 < p" and s: "0 \<le> s" "s < ulp p / 2"
  shows "double_round (p + s) = p"
proof -
  from p have nz: "p \<noteq> 0" by simp
  from d p have rep: "p = of_int (mantissa p) * ulp p" by (simp add: double_round_pos)
  have "of_int (mantissa p) * ulp p / ulp p = real_of_int (mantissa p)" by simp
  with rep p have quo: "\<bar>p\<bar> / ulp p = of_int (mantissa p)" by simp
  from quotient_upper[OF nz] quo have "real_of_int (mantissa p) < 2 ^ 53" by simp
  then have "mantissa p < 2 ^ 53"
    by (metis of_int_less_iff of_int_numeral of_int_power)
  then have "mantissa p + 1 \<le> 2 ^ 53" by simp
  then have "real_of_int (mantissa p + 1) \<le> 2 ^ 53"
    by (metis of_int_le_iff of_int_numeral of_int_power)
  then have m1: "real_of_int (mantissa p) + 1 \<le> 2 ^ 53" by simp
  have "p + s < (of_int (mantissa p) + 1) * ulp p"
    using rep s by (simp add: algebra_simps)
  also from m1 have "\<dots> \<le> 2 ^ 53 * ulp p" by (intro mult_right_mono) simp_all
  also have "\<dots> = 2 powr of_int (binade p + 1)" by (rule ulp_times_53)
  finally have up: "p + s < 2 powr of_int (binade p + 1)" .
  have "binade (p + s) = binade p"
  proof (rule binade_eqI)
    show "p + s \<noteq> 0" using p s by simp
    show "- 1022 \<le> binade p" by simp
    show "\<bar>p + s\<bar> < 2 powr of_int (binade p + 1)" using up p s by simp
    show "2 powr of_int (binade p) \<le> \<bar>p + s\<bar>" if "- 1022 < binade p"
      using binade_lower[OF nz that] p s by simp
  qed
  then have u: "ulp (p + s) = ulp p" by (simp add: ulp_def)
  have "\<bar>p + s\<bar> / ulp (p + s) = of_int (mantissa p) + s / ulp p"
    using p s quo unfolding u by (simp add: add_divide_distrib)
  then have "\<bar>p + s\<bar> / ulp (p + s) - of_int (mantissa p) = s / ulp p" by simp
  moreover have "0 \<le> s / ulp p" using s by simp
  moreover have "s / ulp p < 1 / 2"
    using s ulp_pos[of p] by (simp add: field_simps)
  ultimately have "\<bar>\<bar>p + s\<bar> / ulp (p + s) - of_int (mantissa p)\<bar> < 1 / 2" by linarith
  then have "mantissa (p + s) = mantissa p"
    unfolding mantissa_def[of "p + s"] by (rule round_even_near)
  with u rep p s show ?thesis by (simp add: double_round_pos)
qed

subsection \<open>Doubles used in the runs\<close>

lemma double_round_numeral [simp]:
  "(numeral n :: int) < 2 ^ 53 \<Longrightarrow> double_round (numeral n) = numeral n"
  using double_round_of_int[of "numeral n"] by simp

lemma double_round_one [simp]: "double_round 1 = 1"
  using double_round_of_int[of 1] by simp

lemma double_round_half [simp]: "double_round (1 / 2) = 1 / 2"
  using double_round_exact[of 1 "- 1"] by (simp add: powr_minus_divide)

lemma double_round_not_neg [simp]: "0 \<le> x \<Longrightarrow> \<not> double_round x < 0"
  using double_round_nonneg[of x] by simp

lemma double_round_le_one: "x \<le> 1 \<Longrightarrow> double_round x \<le> 1"
  using double_round_mono[of x 1] by simp

lemma fadd_zero [simp]: "fadd a 0 = double_round a" "fadd 0 a = double_round a"
  by (simp_all add: fadd_def)

lemma fadd_double [simp]: "double_round (fadd a b) = fadd a b"
  by (simp add: fadd_def double_round_idem)

lemma fadd_ge_left:
  assumes "double_round a = a" and "0 \<le> b"
  shows "a \<le> fadd a b"
proof -
  from assms(2) have "double_round a \<le> double_round (a + b)"
    by (intro double_round_mono) simp
  with assms(1) show ?thesis by (simp add: fadd_def)
qed

lemma ln_2_ge_half: "1 / 2 \<le> ln (2::real)"
proof -
  have "exp (1 / 2 :: real) \<le> 2"
  proof (rule ccontr)
    assume "\<not> exp (1 / 2 :: real) \<le> 2"
    then have "2 < exp (1 / 2 :: real)" by simp
    then have "2 * 2 < exp (1 / 2 :: real) * exp (1 / 2)"
      by (intro mult_strict_mono) simp_all
    also have "\<dots> = exp (1::real)" by (simp add: exp_add[symmetric])
    finally show False using exp_le by simp
  qed
  then have "ln (exp (1 / 2 :: real)) \<le> ln 2"
    by (subst ln_le_cancel_iff) simp_all
  then show ?thesis by simp
qed

lemma ln_2_le_one: "ln (2::real) \<le> 1"
  using ln_le_minus_one[of "2::real"] by simp

lemmas float_ops = fadd_def fsub_def fmul_def fdiv_def double_round_minus double_round_nonneg

section \<open>Properties of the schedule simulation\<close>

subsection \<open>Sampling, lookups and the task loop\<close>

lemma py_max_Max:
  assumes "xs \<noteq> []"
  shows "py_max xs = Inr (Max (set xs))"
proof (cases xs)
  case Nil
  with assms show ?thesis by simp
next
  case (Cons a list)
  have "fold max list a = Max (set (a # list))"
    by (rule Max.set_eq_fold[symmetric])
  with Cons show ?thesis by simp
qed

lemma lookup_finish_ok:
  "set ps \<subseteq> fst ` set td \<Longrightarrow> lookup_finish td ps = Inr (map (finish_of td) ps)"
proof (induction ps)
  case Nil
  show ?case by simp
next
  case (Cons p ps)
  from Cons.prems have "p \<in> fst ` set td" by simp
  then obtain v where "map_of td p = Some v"
    by (metis domD dom_map_of_conv_image_fst)
  with Cons show ?case by (simp add: finish_of_def)
qed

lemma lookup_finish_fail:
  "\<not> set ps \<subseteq> fst ` set td \<Longrightarrow> \<exists>p \<in> set ps. p \<notin> fst ` set td \<and> lookup_finish td ps = Inl (KeyError p)"
proof (induction ps)
  case Nil
  then show ?case by simp
next
  case (Cons p ps)
  show ?case
  proof (cases "map_of td p")
    case None
    then have "p \<notin> fst ` set td" by (simp add: map_of_eq_None_iff)
    with None show ?thesis by simp
  next
    case (Some v)
    then have "p \<in> fst ` set td" by (metis domI dom_map_of_conv_image_fst)
    with Cons.prems have "\<not> set ps \<subseteq> fst ` set td" by simp
    from Cons.IH[OF this] Some show ?thesis by auto
  qed
qed

lemma start_time_of_ok:
  "set ps \<subseteq> fst ` set td \<Longrightarrow> start_time_of td ps = Inr (latest_finish td ps)"
  by (simp add: start_time_of_def latest_finish_def lookup_finish_ok py_max_Max)

lemma start_time_of_fail:
  assumes "\<not> set ps \<subseteq> fst ` set td"
  shows "\<exists>p \<in> set ps. p \<notin> fst ` set td \<and> start_time_of td ps = Inl (KeyError p)"
proof -
  from assms have "ps \<noteq> []" by auto
  with lookup_finish_fail[OF assms] show ?thesis
    by (auto simp: start_time_of_def)
qed

lemma sample_task_duration_ok:
  "0 \<le> pert_std_dev triple \<Longrightarrow>
   sample_task_duration triple z i = Inr (fadd (pert_mean triple) (fmul (pert_std_dev triple) (z i)), Suc i)"
  by (simp add: sample_task_duration_def Let_def)

lemma sample_task_duration_Inr:
  "sample_task_duration triple z i = Inr (dur, i') \<Longrightarrow>
   0 \<le> pert_std_dev triple \<and> dur = fadd (pert_mean triple) (fmul (pert_std_dev triple) (z i)) \<and> i' = Suc i"
  by (auto simp: sample_task_duration_def Let_def split: if_splits)

lemma start_time_of_Inr:
  assumes "start_time_of td ps = Inr st"
  shows "set ps \<subseteq> fst ` set td \<and> st = latest_finish td ps"
proof (cases "set ps \<subseteq> fst ` set td")
  case True
  with assms start_time_of_ok[OF True] show ?thesis by simp
next
  case False
  from start_time_of_fail[OF False] assms show ?thesis by auto
qed


lemma schedule_tasks_loop_append:
  "schedule_tasks_loop (xs @ ys) z i td =
     (case schedule_tasks_loop xs z i td of
        Inl e \<Rightarrow> Inl e
      | Inr (td', i') \<Rightarrow> schedule_tasks_loop ys z i' td')"
proof (induction xs arbitrary: i td)
  case Nil
  show ?case by simp
next
  case (Cons x xs)
  obtain task info where x: "x = (task, info)" by (cases x)
  show ?case
    by (simp add: x Cons.IH split: sum.splits prod.splits)
qed

lemma schedule_tasks_loop_ok:
  "spread_ok tasks \<Longrightarrow> preds_first (fst ` set td) tasks \<Longrightarrow>
     \<exists>td'. schedule_tasks_loop tasks z i td = Inr (td', i + length tasks) \<and>
           fst ` set td' = fst ` set td \<union> fst ` set tasks"
proof (induction tasks arbitrary: i td)
  case Nil
  show ?case by simp
next
  case (Cons x rest)
  obtain task info where x: "x = (task, info)" by (cases x)
  from Cons.prems x have sd: "0 \<le> pert_std_dev (duration info)" and rest: "spread_ok rest"
    by (auto simp: spread_ok_def)
  from Cons.prems x have sub: "set (predecessors info) \<subseteq> fst ` set td"
    and pf: "preds_first (insert task (fst ` set td)) rest" by auto
  define v where "v = fadd (latest_finish td (predecessors info))
    (fadd (pert_mean (duration info)) (fmul (pert_std_dev (duration info)) (z i)))"
  have keys: "fst ` set (AList.update task v td) = insert task (fst ` set td)"
    by (simp add: dom_update)
  from Cons.IH[OF rest, of "AList.update task v td" "Suc i"] pf keys
  obtain td' where "schedule_tasks_loop rest z (Suc i) (AList.update task v td) =
      Inr (td', Suc i + length rest)"
    and "fst ` set td' = insert task (fst ` set td) \<union> fst ` set rest"
    by auto
  then show ?case
    by (simp add: x sample_task_duration_ok[OF sd] start_time_of_ok[OF sub] v_def)
qed

lemma schedule_tasks_loop_Inr:
  "schedule_tasks_loop tasks z i td = Inr (td', i') \<Longrightarrow>
     spread_ok tasks \<and> preds_first (fst ` set td) tasks \<and> i' = i + length tasks"
proof (induction tasks arbitrary: i td)
  case Nil
  then show ?case by (simp add: spread_ok_def)
next
  case (Cons x rest)
  obtain task info where x: "x = (task, info)" by (cases x)
  from Cons.prems x obtain dur i1 st where
    s: "sample_task_duration (duration info) z i = Inr (dur, i1)"
    and st: "start_time_of td (predecessors info) = Inr st"
    and r: "schedule_tasks_loop rest z i1 (AList.update task (fadd st dur) td) = Inr (td', i')"
    by (auto split: sum.splits prod.splits)
  from sample_task_duration_Inr[OF s] have sd: "0 \<le> pert_std_dev (duration info)"
    and i1: "i1 = Suc i" by auto
  from start_time_of_Inr[OF st] have sub: "set (predecessors info) \<subseteq> fst ` set td" by simp
  from Cons.IH[OF r] have "spread_ok rest"
    and "preds_first (fst ` set (AList.update task (fadd st dur) td)) rest"
    and "i' = i1 + length rest" by auto
  with sd sub i1 x show ?case
    by (simp add: spread_ok_def dom_update)
qed

subsection \<open>The finish times after the task loop\<close>

lemma finish_of_update_other:
  "p \<noteq> t \<Longrightarrow> finish_of (AList.update t v td) p = finish_of td p"
  by (simp add: finish_of_def update_conv')

lemma latest_finish_update_other:
  assumes "t \<notin> set ps"
  shows "latest_finish (AList.update t v td) ps = latest_finish td ps"
proof -
  from assms have "finish_of (AList.update t v td) ` set ps = finish_of td ` set ps"
    by (intro image_cong refl finish_of_update_other) auto
  then show ?thesis by (simp add: latest_finish_def)
qed

lemma schedule_tasks_loop_finish:
  "distinct (map fst tasks) \<Longrightarrow> schedule_tasks_loop tasks z i [] = Inr (td, i') \<Longrightarrow>
     map fst td = map fst tasks \<and>
     (\<forall>k < length tasks.
        set (predecessors (snd (tasks ! k))) \<subseteq> fst ` set td \<and>
        map_of td (fst (tasks ! k)) =
          Some (fadd (latest_finish td (predecessors (snd (tasks ! k))))
                  (sampled_duration tasks z i k)))"
proof (induction tasks arbitrary: td i' rule: rev_induct)
  case Nil
  then show ?case by simp
next
  case (snoc x xs)
  obtain task info where x: "x = (task, info)" by (cases x)
  from snoc.prems(2) obtain td1 i1 where
    xs: "schedule_tasks_loop xs z i [] = Inr (td1, i1)"
    and last: "schedule_tasks_loop [x] z i1 td1 = Inr (td, i')"
    by (auto simp: schedule_tasks_loop_append split: sum.splits prod.splits)
  from snoc.prems(1) have dxs: "distinct (map fst xs)" and fresh: "task \<notin> fst ` set xs"
    by (auto simp: x)
  from snoc.IH[OF dxs xs] have keys1: "map fst td1 = map fst xs"
    and inv1: "\<forall>k < length xs.
        set (predecessors (snd (xs ! k))) \<subseteq> fst ` set td1 \<and>
        map_of td1 (fst (xs ! k)) =
          Some (fadd (latest_finish td1 (predecessors (snd (xs ! k))))
                  (sampled_duration xs z i k))"
    by auto
  from keys1 have dom1: "fst ` set td1 = fst ` set xs"
    by (metis set_map)
  with fresh have fresh1: "task \<notin> fst ` set td1" by simp
  from schedule_tasks_loop_Inr[OF xs] have i1: "i1 = i + length xs" by simp
  from last x obtain dur i2 st where
    s: "sample_task_duration (duration info) z i1 = Inr (dur, i2)"
    and st: "start_time_of td1 (predecessors info) = Inr st"
    and td: "td = AList.update task (fadd st dur) td1"
    by (auto split: sum.splits prod.splits)
  from sample_task_duration_Inr[OF s]
  have dur: "dur = fadd (pert_mean (duration info)) (fmul (pert_std_dev (duration info)) (z i1))"
    by simp
  from start_time_of_Inr[OF st] have sub: "set (predecessors info) \<subseteq> fst ` set td1"
    and st_eq: "st = latest_finish td1 (predecessors info)" by auto
  have keys: "map fst td = map fst (xs @ [x])"
    using fresh keys1 by (simp add: td update_keys x)
  have dom: "fst ` set td = insert task (fst ` set td1)"
    by (simp add: td dom_update)
  have "set (predecessors (snd ((xs @ [x]) ! k))) \<subseteq> fst ` set td \<and>
        map_of td (fst ((xs @ [x]) ! k)) =
          Some (fadd (latest_finish td (predecessors (snd ((xs @ [x]) ! k))))
                  (sampled_duration (xs @ [x]) z i k))"
    if k: "k < length (xs @ [x])" for k
  proof (cases "k < length xs")
    case True
    then have nth: "(xs @ [x]) ! k = xs ! k" by (simp add: nth_append)
    from True inv1 have sub_k: "set (predecessors (snd (xs ! k))) \<subseteq> fst ` set td1"
      and val: "map_of td1 (fst (xs ! k)) =
          Some (fadd (latest_finish td1 (predecessors (snd (xs ! k))))
                  (sampled_duration xs z i k))"
      by auto
    from True have "fst (xs ! k) \<in> fst ` set xs" by simp
    with fresh have ne: "fst (xs ! k) \<noteq> task" by auto
    from sub_k fresh1 have "task \<notin> set (predecessors (snd (xs ! k)))" by auto
    then have lf: "latest_finish td (predecessors (snd (xs ! k))) =
        latest_finish td1 (predecessors (snd (xs ! k)))"
      by (simp add: td latest_finish_update_other)
    have sd: "sampled_duration (xs @ [x]) z i k = sampled_duration xs z i k"
      by (simp add: sampled_duration_def nth)
    from ne have "map_of td (fst (xs ! k)) = map_of td1 (fst (xs ! k))"
      by (simp add: td update_conv')
    with val lf sd sub_k dom show ?thesis by (auto simp: nth)
  next
    case False
    with k have keq: "k = length xs" by simp
    then have nth: "(xs @ [x]) ! k = (task, info)" by (simp add: x)
    from sub fresh1 have "task \<notin> set (predecessors info)" by auto
    then have lf: "latest_finish td (predecessors info) = latest_finish td1 (predecessors info)"
      by (simp add: td latest_finish_update_other)
    have sd: "sampled_duration (xs @ [x]) z i k = dur"
      by (simp add: sampled_duration_def keq x dur i1)
    have "map_of td task = Some (fadd st dur)"
      by (simp add: td update_conv')
    with lf sd st_eq sub dom show ?thesis by (auto simp: nth)
  qed
  with keys show ?case by blast
qed

lemma finish_of_loop:
  assumes "distinct (map fst tasks)" and "schedule_tasks_loop tasks z i [] = Inr (td, i')"
    and "k < length tasks"
  shows "finish_of td (fst (tasks ! k)) =
           fadd (latest_finish td (predecessors (snd (tasks ! k)))) (sampled_duration tasks z i k)"
  using schedule_tasks_loop_finish[OF assms(1,2)] assms(3) by (simp add: finish_of_def)

lemma distinct_snd_image:
  assumes "distinct (map fst td)"
  shows "snd ` set td = finish_of td ` fst ` set td"
proof -
  have "finish_of td (fst kv) = snd kv" if "kv \<in> set td" for kv
  proof -
    from that have "(fst kv, snd kv) \<in> set td" by simp
    with assms have "map_of td (fst kv) = Some (snd kv)" by (rule map_of_is_SomeI)
    then show ?thesis by (simp add: finish_of_def)
  qed
  then show ?thesis by (force simp: image_image)
qed

lemma schedule_replication_Max:
  assumes "distinct (map fst tasks)" and "schedule_tasks_loop tasks z i [] = Inr (td, i')"
  shows "schedule_replication tasks z i =
           (if tasks = [] then Inl ValueError
            else Inr (Max (finish_of td ` fst ` set tasks), i'))"
proof -
  from schedule_tasks_loop_finish[OF assms] have keys: "map fst td = map fst tasks" by simp
  then have dom: "fst ` set td = fst ` set tasks" by (metis set_map)
  from keys assms(1) have "distinct (map fst td)" by simp
  from distinct_snd_image[OF this] dom
  have vals: "set (map snd td) = finish_of td ` fst ` set tasks" by simp
  from keys have "td = [] \<longleftrightarrow> tasks = []" by (metis map_is_Nil_conv)
  then show ?thesis
    using assms(2) vals py_max_Max[of "map snd td"]
    by (auto simp: schedule_replication_def)
qed

lemma schedule_replication_ok:
  assumes d: "distinct (map fst tasks)" and sp: "spread_ok tasks" and ne: "tasks \<noteq> []"
    and pf: "preds_first {} tasks"
  shows "\<exists>td. schedule_tasks_loop tasks z i [] = Inr (td, i + length tasks) \<and>
           schedule_replication tasks z i =
             Inr (Max (finish_of td ` fst ` set tasks), i + length tasks)"
proof -
  from schedule_tasks_loop_ok[OF sp, of "[]" z i] pf obtain td where
    l: "schedule_tasks_loop tasks z i [] = Inr (td, i + length tasks)" by auto
  from schedule_replication_Max[OF d l] ne l show ?thesis by simp
qed

subsection \<open>Insertion order and the dependency graph\<close>

lemma depends_on_iff:
  "(p, t) \<in> depends_on tasks \<longleftrightarrow> (\<exists>info. (t, info) \<in> set tasks \<and> p \<in> set (predecessors info))"
  by (auto simp: depends_on_def)

lemma preds_first_nth:
  "preds_first S tasks \<Longrightarrow> k < length tasks \<Longrightarrow>
     set (predecessors (snd (tasks ! k))) \<subseteq> S \<union> fst ` set (take k tasks)"
proof (induction tasks arbitrary: S k)
  case Nil
  then show ?case by simp
next
  case (Cons x rest)
  obtain task info where x: "x = (task, info)" by (cases x)
  show ?case
  proof (cases k)
    case 0
    with Cons.prems x show ?thesis by simp
  next
    case (Suc j)
    with Cons.prems x have "preds_first (insert task S) rest" "j < length rest" by auto
    from Cons.IH[OF this] Suc x show ?thesis by auto
  qed
qed











subsection \<open>Runs on concrete graphs\<close>







subsection \<open>Claim C1: the order in which tasks are processed\<close>




subsection \<open>Claim C2: cycles and unknown predecessors\<close>




subsection \<open>Claim C6: start times, finish times and the project duration\<close>



subsection \<open>Claim C5: zero-variance triples and the critical path\<close>

lemma map_of_nth:
  assumes "distinct (map fst tasks)" and "k < length tasks"
  shows "map_of tasks (fst (tasks ! k)) = Some (snd (tasks ! k))"
proof -
  from assms(2) have "(fst (tasks ! k), snd (tasks ! k)) \<in> set tasks" by simp
  with assms(1) show ?thesis by (rule map_of_is_SomeI)
qed

lemma zero_variance_spread: "zero_variance tasks \<Longrightarrow> spread_ok tasks"
  by (auto simp: zero_variance_def spread_ok_def pert_std_dev_def float_ops split: prod.splits)

lemma dep_path_snoc:
  "dep_path tasks path \<Longrightarrow> (last path, t) \<in> depends_on tasks \<Longrightarrow> t \<in> fst ` set tasks \<Longrightarrow>
     dep_path tasks (path @ [t])"
  by (induction tasks path rule: dep_path.induct) auto

lemma dep_path_nonempty: "dep_path tasks path \<Longrightarrow> path \<noteq> []"
  by auto

lemma latest_finish_ge:
  "p \<in> set ps \<Longrightarrow> finish_of td p \<le> latest_finish td ps"
  by (auto simp: latest_finish_def)

lemma latest_finish_attained:
  assumes "ps \<noteq> []"
  shows "\<exists>p \<in> set ps. latest_finish td ps = finish_of td p"
proof -
  from assms have "Max (finish_of td ` set ps) \<in> finish_of td ` set ps"
    by (intro Max_in) auto
  then obtain p where "p \<in> set ps" "Max (finish_of td ` set ps) = finish_of td p"
    by blast
  with assms show ?thesis by (auto simp: latest_finish_def)
qed

lemma chain_to_task:
  assumes d: "distinct (map fst tasks)" and pf: "preds_first {} tasks"
    and eq: "\<forall>k < length tasks. finish_of td (fst (tasks ! k)) =
               latest_finish td (predecessors (snd (tasks ! k))) +
               most_likely_of tasks (fst (tasks ! k))"
  shows "k < length tasks \<Longrightarrow>
     \<exists>path. dep_chain tasks path \<and> last path = fst (tasks ! k) \<and>
            path_length tasks path = finish_of td (fst (tasks ! k))"
proof (induction k rule: less_induct)
  case (less k)
  let ?t = "fst (tasks ! k)" and ?info = "snd (tasks ! k)"
  from less.prems have mem: "(?t, ?info) \<in> set tasks" by simp
  then have key: "?t \<in> fst ` set tasks" by force
  show ?case
  proof (cases "predecessors ?info = []")
    case True
    with eq less.prems have "finish_of td ?t = most_likely_of tasks ?t"
      by (simp add: latest_finish_def)
    moreover have "dep_chain tasks [?t]"
      using key True by (simp add: dep_chain_def map_of_nth[OF d less.prems])
    ultimately show ?thesis
      by (intro exI[of _ "[?t]"]) (simp add: path_length_def)
  next
    case False
    from latest_finish_attained[OF False, of td] obtain p where
      p: "p \<in> set (predecessors ?info)"
      and lf: "latest_finish td (predecessors ?info) = finish_of td p" by auto
    from preds_first_nth[OF pf less.prems] p have "p \<in> fst ` set (take k tasks)" by auto
    then obtain j where "j < length (take k tasks)" "fst (take k tasks ! j) = p"
      by (auto simp: in_set_conv_nth)
    with less.prems have j: "j < k" "j < length tasks" "fst (tasks ! j) = p" by simp_all
    from less.IH[OF j(1,2)] j(3) obtain path where
      c: "dep_chain tasks path" and l: "last path = p"
      and w: "path_length tasks path = finish_of td p" by auto
    from c have dp: "dep_path tasks path" by (simp add: dep_chain_def)
    then have ne: "path \<noteq> []" by (rule dep_path_nonempty)
    from mem p have "(p, ?t) \<in> depends_on tasks" unfolding depends_on_iff by blast
    with dep_path_snoc[OF dp, of ?t] l key have "dep_path tasks (path @ [?t])" by simp
    with c ne have "dep_chain tasks (path @ [?t])" by (simp add: dep_chain_def)
    moreover from w lf eq less.prems
    have "path_length tasks (path @ [?t]) = finish_of td ?t"
      by (simp add: path_length_def)
    ultimately show ?thesis
      by (intro exI[of _ "path @ [?t]"]) simp
  qed
qed

lemma edge_finish:
  assumes d: "distinct (map fst tasks)"
    and eq: "\<forall>k < length tasks. finish_of td (fst (tasks ! k)) =
               latest_finish td (predecessors (snd (tasks ! k))) +
               most_likely_of tasks (fst (tasks ! k))"
    and e: "(p, t) \<in> depends_on tasks"
  shows "finish_of td p + most_likely_of tasks t \<le> finish_of td t"
proof -
  from e obtain info where "(t, info) \<in> set tasks" and p: "p \<in> set (predecessors info)"
    by (auto simp: depends_on_iff)
  then obtain k where k: "k < length tasks" "tasks ! k = (t, info)"
    by (auto simp: in_set_conv_nth)
  from latest_finish_ge[OF p, of td] eq k show ?thesis by auto
qed

lemma path_finish:
  assumes d: "distinct (map fst tasks)"
    and eq: "\<forall>k < length tasks. finish_of td (fst (tasks ! k)) =
               latest_finish td (predecessors (snd (tasks ! k))) +
               most_likely_of tasks (fst (tasks ! k))"
  shows "dep_path tasks path \<Longrightarrow>
     finish_of td (hd path) + path_length tasks (tl path) \<le> finish_of td (last path)"
proof (induction path)
  case Nil
  then show ?case by simp
next
  case (Cons p rest)
  show ?case
  proof (cases rest)
    case Nil
    then show ?thesis by (simp add: path_length_def)
  next
    case (Cons t rest')
    with Cons.prems have e: "(p, t) \<in> depends_on tasks" and r: "dep_path tasks rest"
      by auto
    from Cons.IH[OF r] Cons
    have "finish_of td t + path_length tasks rest' \<le> finish_of td (last (t # rest'))"
      by simp
    moreover from edge_finish[OF d eq e]
    have "finish_of td p + most_likely_of tasks t \<le> finish_of td t" .
    ultimately show ?thesis using Cons by (simp add: path_length_def)
  qed
qed

lemma longest_chain_unique: "longest_chain tasks a \<Longrightarrow> longest_chain tasks b \<Longrightarrow> a = b"
  unfolding longest_chain_def by (metis order_antisym)

lemma schedule_simulations_loop_const:
  assumes "\<And>i. schedule_replication tasks z i = Inr (cp, i + m)"
  shows "schedule_simulations_loop n tasks z i acc = Inr (acc @ replicate n cp, i + n * m)"
proof (induction n arbitrary: i acc)
  case 0
  show ?case by simp
next
  case (Suc n)
  show ?case
    by (simp add: assms Suc.IH replicate_app_Cons_same add.assoc)
qed

lemma on_grid_iff: "on_grid e x \<longleftrightarrow> (\<exists>k::int. x = of_int k * 2 powr of_int e)"
proof
  assume "on_grid e x"
  then have "x = of_int \<lfloor>x / 2 powr of_int e\<rfloor> * 2 powr of_int e"
    by (simp add: on_grid_def)
  then show "\<exists>k::int. x = of_int k * 2 powr of_int e" ..
next
  assume "\<exists>k::int. x = of_int k * 2 powr of_int e"
  then obtain k :: int where k: "x = of_int k * 2 powr of_int e" ..
  then have "x / 2 powr of_int e = of_int k" by simp
  then have "\<lfloor>x / 2 powr of_int e\<rfloor> = k" by simp
  with k show "on_grid e x" by (simp add: on_grid_def)
qed

lemma on_grid_zero: "on_grid e 0"
  by (simp add: on_grid_def)

lemma on_grid_add:
  assumes "on_grid e x" and "on_grid e y"
  shows "on_grid e (x + y)"
proof -
  from assms obtain k l :: int where "x = of_int k * 2 powr of_int e"
    "y = of_int l * 2 powr of_int e" unfolding on_grid_iff by blast
  then have "x + y = of_int (k + l) * 2 powr of_int e" by (simp add: distrib_right)
  then show ?thesis unfolding on_grid_iff ..
qed

lemma on_grid_mult:
  assumes "on_grid e x"
  shows "on_grid e (of_int n * x)"
proof -
  from assms obtain k :: int where "x = of_int k * 2 powr of_int e"
    unfolding on_grid_iff by blast
  then have "of_int n * x = of_int (n * k) * 2 powr of_int e" by simp
  then show ?thesis unfolding on_grid_iff ..
qed

text \<open>A multiple of \<open>2 ^ e\<close> with a significand below \<open>2 ^ 53\<close> is a double.\<close>

lemma grid_exact:
  assumes "- 1074 \<le> e" and "on_grid e x" and "\<bar>x\<bar> < 2 ^ 53 * 2 powr of_int e"
  shows "double_round x = x"
proof -
  from assms(2) obtain k :: int where k: "x = of_int k * 2 powr of_int e"
    unfolding on_grid_iff by blast
  have g: "0 < (2::real) powr of_int e" by simp
  from assms(3) have "\<bar>real_of_int k\<bar> * 2 powr of_int e < 2 ^ 53 * 2 powr of_int e"
    by (simp add: k abs_mult)
  with g have "\<bar>real_of_int k\<bar> < 2 ^ 53" by (simp only: mult_less_cancel_right_pos)
  then have "real_of_int \<bar>k\<bar> < real_of_int (2 ^ 53)" by simp
  then have "\<bar>k\<bar> < 2 ^ 53" by (simp only: of_int_less_iff)
  from double_round_exact[OF this assms(1)] k show ?thesis by simp
qed

lemma pert_exact:
  assumes e: "- 1074 \<le> e" and m: "on_grid e m" and b: "6 * \<bar>m\<bar> < 2 ^ 53 * 2 powr of_int e"
  shows "pert_mean (m, m, m) = m" and "pert_std_dev (m, m, m) = 0"
proof -
  have r: "double_round (of_int n * m) = of_int n * m" if "\<bar>n\<bar> \<le> 6" for n :: int
  proof -
    from that have "\<bar>real_of_int n\<bar> \<le> 6" by linarith
    then have "\<bar>real_of_int n\<bar> * \<bar>m\<bar> \<le> 6 * \<bar>m\<bar>" by (intro mult_right_mono) simp_all
    with b have "\<bar>of_int n * m\<bar> < 2 ^ 53 * 2 powr of_int e" by (simp add: abs_mult)
    from grid_exact[OF e on_grid_mult[OF m] this] show ?thesis .
  qed
  from r[of 4] have r4: "double_round (4 * m) = 4 * m" by simp
  from r[of 5] have r5: "double_round (5 * m) = 5 * m" by simp
  from r[of 6] have r6: "double_round (6 * m) = 6 * m" by simp
  from r[of 1] have r1: "double_round m = m" by simp
  have "fmul 4 m = 4 * m" by (simp add: fmul_def r4)
  moreover have "fadd m (4 * m) = 5 * m" by (simp add: fadd_def r5)
  moreover have "fadd (5 * m) m = 6 * m" by (simp add: fadd_def r6)
  moreover have "fdiv (6 * m) 6 = m" by (simp add: fdiv_def r1)
  ultimately show "pert_mean (m, m, m) = m" by (simp add: pert_mean_def)
  show "pert_std_dev (m, m, m) = 0" by (simp add: pert_std_dev_def fsub_def fdiv_def)
qed

lemma sum_list_nth: "sum_list (map g xs) = (\<Sum>j<length xs. g (xs ! j))"
proof (induction xs rule: rev_induct)
  case Nil
  show ?case by simp
next
  case (snoc x xs)
  have "(\<Sum>j<length xs. g ((xs @ [x]) ! j)) = (\<Sum>j<length xs. g (xs ! j))"
    by (intro sum.cong refl) (simp add: nth_append)
  with snoc show ?case by simp
qed

lemma exact_durationsD:
  assumes ex: "exact_durations e tasks" and d: "distinct (map fst tasks)"
    and k: "k < length tasks"
  shows "on_grid e (most_likely_of tasks (fst (tasks ! k)))"
    and "(\<Sum>j<Suc k. \<bar>most_likely_of tasks (fst (tasks ! j))\<bar>) * 6 < 2 ^ 53 * 2 powr of_int e"
proof -
  let ?w = "\<lambda>x :: string \<times> task_info. \<bar>fst (snd (duration (snd x)))\<bar>"
  have ml: "most_likely_of tasks (fst (tasks ! j)) = fst (snd (duration (snd (tasks ! j))))"
    if "j < length tasks" for j
    by (simp add: most_likely_of_def map_of_nth[OF d that])
  from k have "tasks ! k \<in> set tasks" by simp
  with ex have "on_grid e (fst (snd (duration (snd (tasks ! k)))))"
    by (auto simp: exact_durations_def)
  with ml[OF k] show "on_grid e (most_likely_of tasks (fst (tasks ! k)))" by simp
  have "(\<lambda>(task, info). \<bar>fst (snd (duration info))\<bar>) = ?w"
    by (simp add: fun_eq_iff)
  with ex have total: "6 * sum_list (map ?w tasks) < 2 ^ 53 * 2 powr of_int e"
    by (simp add: exact_durations_def)
  have "(\<Sum>j<Suc k. \<bar>most_likely_of tasks (fst (tasks ! j))\<bar>) = (\<Sum>j<Suc k. ?w (tasks ! j))"
    using k by (intro sum.cong refl) (simp add: ml)
  also have "\<dots> \<le> (\<Sum>j<length tasks. ?w (tasks ! j))"
    using k by (intro sum_mono2) auto
  also have "\<dots> = sum_list (map ?w tasks)" by (rule sum_list_nth[symmetric])
  finally show "(\<Sum>j<Suc k. \<bar>most_likely_of tasks (fst (tasks ! j))\<bar>) * 6
      < 2 ^ 53 * 2 powr of_int e"
    using total by simp
qed

lemma zero_variance_sampled:
  assumes zv: "zero_variance tasks" and d: "distinct (map fst tasks)" and k: "k < length tasks"
    and ex: "exact_durations e tasks"
  shows "sampled_duration tasks z i k = most_likely_of tasks (fst (tasks ! k))"
proof -
  obtain a b c where dur: "duration (snd (tasks ! k)) = (a, b, c)"
    by (cases "duration (snd (tasks ! k))")
  from k have "(fst (tasks ! k), snd (tasks ! k)) \<in> set tasks" by simp
  with zv dur have abc: "a = b" "c = b" by (auto simp: zero_variance_def)
  have ml: "most_likely_of tasks (fst (tasks ! k)) = b"
    by (simp add: most_likely_of_def map_of_nth[OF d k] dur)
  from ex have e: "- 1074 \<le> e" by (simp add: exact_durations_def)
  from exact_durationsD[OF ex d k] ml have g: "on_grid e b"
    and "(\<Sum>j<Suc k. \<bar>most_likely_of tasks (fst (tasks ! j))\<bar>) * 6 < 2 ^ 53 * 2 powr of_int e"
    by simp_all
  moreover have "\<bar>b\<bar> \<le> (\<Sum>j<Suc k. \<bar>most_likely_of tasks (fst (tasks ! j))\<bar>)"
    using ml by (simp add: sum_nonneg)
  ultimately have b: "6 * \<bar>b\<bar> < 2 ^ 53 * 2 powr of_int e" by linarith
  from pert_exact[OF e g b] have "pert_mean (b, b, b) = b" "pert_std_dev (b, b, b) = 0" .
  moreover have "double_round b = b"
    using grid_exact[OF e g] b by simp
  ultimately show ?thesis
    by (simp add: sampled_duration_def dur abc ml fmul_def)
qed

text \<open>
  On such durations the forward pass is exact: every finish time is a multiple of
  \<open>2 ^ e\<close> bounded by the sum of the durations so far, so the float sum
  \<open>start_time + duration\<close> is the exact sum.
\<close>

lemma forward_pass_exact:
  assumes d: "distinct (map fst tasks)" and pf: "preds_first {} tasks"
    and ex: "exact_durations e tasks"
    and eqf: "\<forall>k < length tasks. finish_of td (fst (tasks ! k)) =
               fadd (latest_finish td (predecessors (snd (tasks ! k))))
                 (most_likely_of tasks (fst (tasks ! k)))"
  shows "k < length tasks \<Longrightarrow>
     on_grid e (finish_of td (fst (tasks ! k))) \<and>
     \<bar>finish_of td (fst (tasks ! k))\<bar> \<le> (\<Sum>j<Suc k. \<bar>most_likely_of tasks (fst (tasks ! j))\<bar>) \<and>
     finish_of td (fst (tasks ! k)) =
       latest_finish td (predecessors (snd (tasks ! k))) + most_likely_of tasks (fst (tasks ! k))"
proof (induction k rule: less_induct)
  case (less k)
  let ?w = "\<lambda>j. \<bar>most_likely_of tasks (fst (tasks ! j))\<bar>"
  let ?L = "latest_finish td (predecessors (snd (tasks ! k)))"
  let ?m = "most_likely_of tasks (fst (tasks ! k))"
  from ex have e: "- 1074 \<le> e" by (simp add: exact_durations_def)
  have L: "on_grid e ?L \<and> \<bar>?L\<bar> \<le> (\<Sum>j<k. ?w j)"
  proof (cases "predecessors (snd (tasks ! k)) = []")
    case True
    then show ?thesis by (simp add: latest_finish_def on_grid_zero sum_nonneg)
  next
    case False
    from latest_finish_attained[OF False, of td] obtain p where
      p: "p \<in> set (predecessors (snd (tasks ! k)))" and lf: "?L = finish_of td p" by auto
    from preds_first_nth[OF pf less.prems] p have "p \<in> fst ` set (take k tasks)" by auto
    then obtain j where "j < length (take k tasks)" "fst (take k tasks ! j) = p"
      by (auto simp: in_set_conv_nth)
    with less.prems have j: "j < k" "j < length tasks" "fst (tasks ! j) = p" by simp_all
    from less.IH[OF j(1,2)] have "on_grid e (finish_of td (fst (tasks ! j)))"
      and "\<bar>finish_of td (fst (tasks ! j))\<bar> \<le> (\<Sum>i<Suc j. ?w i)" by blast+
    then have g: "on_grid e (finish_of td p)"
      and b: "\<bar>finish_of td p\<bar> \<le> (\<Sum>i<Suc j. ?w i)" unfolding j(3) .
    from j(1) have "(\<Sum>i<Suc j. ?w i) \<le> (\<Sum>i<k. ?w i)"
      by (intro sum_mono2) auto
    with g b lf show ?thesis by simp
  qed
  from exact_durationsD[OF ex d less.prems] have m: "on_grid e ?m"
    and total: "(\<Sum>j<Suc k. ?w j) * 6 < 2 ^ 53 * 2 powr of_int e" by simp_all
  from L have "\<bar>?L\<bar> \<le> (\<Sum>j<k. ?w j)" ..
  moreover have "\<bar>?L + ?m\<bar> \<le> \<bar>?L\<bar> + \<bar>?m\<bar>" by (rule abs_triangle_ineq)
  moreover have "(\<Sum>j<Suc k. ?w j) = (\<Sum>j<k. ?w j) + \<bar>?m\<bar>" by simp
  ultimately have "\<bar>?L + ?m\<bar> \<le> (\<Sum>j<Suc k. ?w j)" by linarith
  moreover have "0 \<le> (\<Sum>j<Suc k. ?w j)" by (intro sum_nonneg) simp
  ultimately have bound: "\<bar>?L + ?m\<bar> \<le> (\<Sum>j<Suc k. ?w j)"
    and "\<bar>?L + ?m\<bar> < 2 ^ 53 * 2 powr of_int e" using total by linarith+
  from grid_exact[OF e on_grid_add[OF conjunct1[OF L] m] this(2)]
  have "fadd ?L ?m = ?L + ?m" by (simp add: fadd_def)
  with eqf less.prems have eq: "finish_of td (fst (tasks ! k)) = ?L + ?m" by simp
  with on_grid_add[OF conjunct1[OF L] m] bound show ?case by simp
qed

lemma zero_variance_replication:
  assumes d: "distinct (map fst tasks)" and zv: "zero_variance tasks" and ne: "tasks \<noteq> []"
    and pf: "preds_first {} tasks" and ex: "exact_durations e tasks"
  shows "\<exists>cp. schedule_replication tasks z i = Inr (cp, i + length tasks) \<and>
           longest_chain tasks cp \<and>
           (nonneg_durations tasks \<longrightarrow>
              (\<forall>path. dep_path tasks path \<longrightarrow> path_length tasks path \<le> cp))"
proof -
  from zero_variance_spread[OF zv] have sp: "spread_ok tasks" .
  from schedule_replication_ok[OF d sp ne pf, of z i] obtain td where
    l: "schedule_tasks_loop tasks z i [] = Inr (td, i + length tasks)"
    and r: "schedule_replication tasks z i =
              Inr (Max (finish_of td ` fst ` set tasks), i + length tasks)" by blast
  define cp where "cp = Max (finish_of td ` fst ` set tasks)"
  have eqf: "\<forall>k < length tasks. finish_of td (fst (tasks ! k)) =
               fadd (latest_finish td (predecessors (snd (tasks ! k))))
                 (most_likely_of tasks (fst (tasks ! k)))"
    using finish_of_loop[OF d l] zero_variance_sampled[OF zv d _ ex, of _ z i] by simp
  have eq: "\<forall>k < length tasks. finish_of td (fst (tasks ! k)) =
               latest_finish td (predecessors (snd (tasks ! k))) +
               most_likely_of tasks (fst (tasks ! k))"
    using forward_pass_exact[OF d pf ex eqf] by blast
  have fin: "finite (finish_of td ` fst ` set tasks)" by simp
  from ne have nonempty: "finish_of td ` fst ` set tasks \<noteq> {}" by simp
  have le_cp: "finish_of td t \<le> cp" if "t \<in> fst ` set tasks" for t
    unfolding cp_def using that by (intro Max_ge fin) blast
  have last_key: "last path \<in> fst ` set tasks" if "dep_path tasks path" for path
    using that
  proof (induction path)
    case Nil
    then show ?case by simp
  next
    case (Cons p rest)
    then show ?case by (cases rest) (auto simp: depends_on_iff)
  qed
  have hd_key: "hd path \<in> fst ` set tasks" if "dep_path tasks path" for path
  proof (cases path)
    case Nil
    with that show ?thesis by simp
  next
    case (Cons p rest)
    with that show ?thesis by (cases rest) auto
  qed
  \<comment> \<open>the maximum is the length of a chain\<close>
  from Max_in[OF fin nonempty] obtain t where t: "t \<in> fst ` set tasks"
    and cp_t: "cp = finish_of td t" unfolding cp_def by blast
  from t obtain k where k: "k < length tasks" "fst (tasks ! k) = t"
    by (auto simp: in_set_conv_nth)
  from chain_to_task[OF d pf eq k(1)] k(2) cp_t
  have attained: "\<exists>path. dep_chain tasks path \<and> path_length tasks path = cp" by auto
  \<comment> \<open>every chain is at most that long\<close>
  have bound: "path_length tasks path \<le> cp" if c: "dep_chain tasks path" for path
  proof -
    from c have dp: "dep_path tasks path" by (simp add: dep_chain_def)
    then have pne: "path \<noteq> []" by (rule dep_path_nonempty)
    from c obtain info where m: "map_of tasks (hd path) = Some info" and src: "predecessors info = []"
      by (auto simp: dep_chain_def split: option.splits)
    from m have "(hd path, info) \<in> set tasks" by (rule map_of_SomeD)
    then obtain j where j: "j < length tasks" "tasks ! j = (hd path, info)"
      by (auto simp: in_set_conv_nth)
    with eq src have "finish_of td (hd path) = most_likely_of tasks (hd path)"
      by (auto simp: latest_finish_def)
    with path_finish[OF d eq dp] pne have "path_length tasks path \<le> finish_of td (last path)"
      by (cases path) (simp_all add: path_length_def)
    also from le_cp[OF last_key[OF dp]] have "\<dots> \<le> cp" .
    finally show ?thesis .
  qed
  have general: "path_length tasks path \<le> cp"
    if nn: "nonneg_durations tasks" and dp: "dep_path tasks path"
    for path
  proof -
    from nn have nonneg: "\<forall>t \<in> fst ` set tasks. 0 \<le> most_likely_of tasks t"
      by (simp add: nonneg_durations_def)
    have chain_nonneg: "0 \<le> path_length tasks c" if "dep_chain tasks c" for c
    proof -
      have "set c \<subseteq> fst ` set tasks" if "dep_path tasks c" for c
        using that
      proof (induction c)
        case Nil
        then show ?case by simp
      next
        case (Cons p rest)
        then show ?case by (cases rest) auto
      qed
      with that nonneg have "\<forall>x \<in> set c. 0 \<le> most_likely_of tasks x"
        by (auto simp: dep_chain_def)
      then show ?thesis unfolding path_length_def by (intro sum_list_nonneg) auto
    qed
    have fin_nonneg: "0 \<le> finish_of td s" if "s \<in> fst ` set tasks" for s
    proof -
      from that obtain j where j: "j < length tasks" "fst (tasks ! j) = s"
        by (auto simp: in_set_conv_nth)
      from chain_to_task[OF d pf eq j(1)] j(2) obtain c where
        "dep_chain tasks c" "path_length tasks c = finish_of td s" by auto
      with chain_nonneg[of c] show ?thesis by simp
    qed
    from dp have pne: "path \<noteq> []" by (rule dep_path_nonempty)
    from hd_key[OF dp] obtain j where j: "j < length tasks" "fst (tasks ! j) = hd path"
      by (auto simp: in_set_conv_nth)
    have "0 \<le> latest_finish td (predecessors (snd (tasks ! j)))"
    proof (cases "predecessors (snd (tasks ! j)) = []")
      case True
      then show ?thesis by (simp add: latest_finish_def)
    next
      case False
      from latest_finish_attained[OF False, of td] obtain p where
        p: "p \<in> set (predecessors (snd (tasks ! j)))"
        and lf: "latest_finish td (predecessors (snd (tasks ! j))) = finish_of td p" by auto
      from preds_first_nth[OF pf j(1)] p have "p \<in> fst ` set (take j tasks)" by auto
      then have "p \<in> fst ` set tasks" by (auto dest: in_set_takeD)
      from fin_nonneg[OF this] lf show ?thesis by simp
    qed
    with eq j have "most_likely_of tasks (hd path) \<le> finish_of td (hd path)" by auto
    with path_finish[OF d eq dp] pne have "path_length tasks path \<le> finish_of td (last path)"
      by (cases path) (simp_all add: path_length_def)
    also from le_cp[OF last_key[OF dp]] have "\<dots> \<le> cp" .
    finally show ?thesis .
  qed
  from r attained bound general show ?thesis
    unfolding longest_chain_def cp_def[symmetric] by blast
qed

lemma tasks_fixed_wf:
  "distinct (map fst tasks_fixed) \<and> zero_variance tasks_fixed \<and> tasks_fixed \<noteq> [] \<and>
   preds_first {} tasks_fixed"
  by (simp add: tasks_fixed_def zero_variance_def)

lemma tasks_fixed_exact: "exact_durations 0 tasks_fixed"
  by (simp add: exact_durations_def on_grid_def tasks_fixed_def)

lemma tasks_fixed_nonneg: "nonneg_durations tasks_fixed"
  by (simp add: nonneg_durations_def tasks_fixed_def most_likely_of_def)

lemma tasks_fixed_path:
  "dep_path tasks_fixed [''Task C'', ''Task D''] \<and>
   path_length tasks_fixed [''Task C'', ''Task D''] = 5"
  by (simp add: tasks_fixed_def depends_on_def path_length_def most_likely_of_def)

lemma tasks_fixed_replication: "schedule_replication tasks_fixed normal_draws 0 = Inr (12, 4)"
  by (simp add: tasks_fixed_def schedule_replication_def sample_task_duration_def
      pert_mean_def pert_std_dev_def start_time_of_def Let_def float_ops)

lemma tasks_late_first_acyclic:
  "\<not> has_cycle tasks_late_first \<and> \<not> unknown_predecessor tasks_late_first"
proof -
  have dep: "depends_on tasks_late_first = {(''Build'', ''Test'')}"
    by (simp add: depends_on_def tasks_late_first_def)
  have "x = ''Build'' \<and> y = ''Test''" if "(x, y) \<in> {(''Build'', ''Test'')}\<^sup>+" for x y
    using that by (induction rule: trancl.induct) auto
  then have "\<not> has_cycle tasks_late_first"
    unfolding has_cycle_def dep by fastforce
  moreover have "\<not> unknown_predecessor tasks_late_first"
    unfolding unknown_predecessor_def dep by (simp add: tasks_late_first_def)
  ultimately show ?thesis by simp
qed

text \<open>The replication of one task with the three estimates \<open>0.1\<close>, step by step.\<close>

lemma tenth_double: "double_round tenth = tenth"
  using double_round_exact[of 3602879701896397 "- 55"]
  by (simp add: tenth_def powr_minus_divide)

lemma tenth_times_4: "fmul 4 tenth = 4 * tenth"
  using double_round_exact[of 3602879701896397 "- 53"]
  by (simp add: fmul_def tenth_def powr_minus_divide)

lemma tenth_times_5: "fadd tenth (4 * tenth) = 1 / 2"
proof -
  have "double_round (tenth + 4 * tenth) = of_int (2 ^ 52) * 2 powr of_int (- 1 - 52)"
    by (rule double_round_eval) (simp_all add: tenth_def powr_minus_divide)
  then show ?thesis by (simp add: fadd_def powr_minus_divide)
qed

lemma tenth_times_6: "fadd (1 / 2) tenth = 5404319552844595 / 2 ^ 53"
proof -
  have "double_round (1 / 2 + tenth) = of_int 5404319552844595 * 2 powr of_int (- 1 - 52)"
    by (rule double_round_eval) (simp_all add: tenth_def powr_minus_divide)
  then show ?thesis by (simp add: fadd_def powr_minus_divide)
qed

lemma tenth_mean_value: "fdiv (5404319552844595 / 2 ^ 53) 6 = 7205759403792793 / 2 ^ 56"
proof -
  have "double_round (5404319552844595 / 2 ^ 53 / 6) =
      of_int 7205759403792793 * 2 powr of_int (- 4 - 52)"
    by (rule double_round_eval) (simp_all add: powr_minus_divide)
  then show ?thesis by (simp add: fdiv_def powr_minus_divide)
qed

lemma tenth_pert_mean: "pert_mean (tenth, tenth, tenth) = 7205759403792793 / 2 ^ 56"
  by (simp only: pert_mean_def prod.case tenth_times_4 tenth_times_5 tenth_times_6
      tenth_mean_value)

lemma tenth_sample:
  "sample_task_duration (tenth, tenth, tenth) z i = Inr (7205759403792793 / 2 ^ 56, Suc i)"
proof -
  have sd: "pert_std_dev (tenth, tenth, tenth) = 0"
    by (simp add: pert_std_dev_def fsub_def fdiv_def)
  have "double_round (7205759403792793 / 2 ^ 56) = 7205759403792793 / 2 ^ 56"
    using double_round_exact[of 7205759403792793 "- 56"] by (simp add: powr_minus_divide)
  then show ?thesis
    by (simp add: sample_task_duration_def Let_def tenth_pert_mean sd fmul_def)
qed

lemma tasks_tenth_replication:
  "schedule_replication tasks_tenth z 0 = Inr (7205759403792793 / 2 ^ 56, 1)"
proof -
  have "double_round (7205759403792793 / 2 ^ 56) = 7205759403792793 / 2 ^ 56"
    using double_round_exact[of 7205759403792793 "- 56"] by (simp add: powr_minus_divide)
  then show ?thesis
    by (simp add: schedule_replication_def tasks_tenth_def tenth_sample start_time_of_def)
qed

text \<open>
  Claim C5 says that for every acyclic graph with \<open>o = m = p\<close> in every triple, every
  replication returns the longest-path value of the graph weighted by \<open>m\<close>. On the
  code this fails for an acyclic graph whose dictionary lists a task before its
  predecessor: the run raises \<open>KeyError\<close>. It also fails for a negative duration:
  with \<open>A\<close> of duration \<open>-5\<close> before \<open>B\<close> of duration \<open>3\<close> the replication returns
  \<open>-2\<close>, while the path that consists of \<open>B\<close> alone has length \<open>3\<close>. And it fails
  by rounding: for the single task with the three estimates \<open>0.1\<close> (the double
  \<open>7205759403792794 / 2 ^ 56\<close>) the float expression \<open>(o + 4 * m + p) / 6\<close> is the
  next smaller double \<open>7205759403792793 / 2 ^ 56\<close>, and this is what the replication
  returns, while the only path has length \<open>0.1\<close>.
\<close>

theorem critical_path_counterexample:
  "zero_variance tasks_late_first \<and> \<not> has_cycle tasks_late_first \<and>
   \<not> unknown_predecessor tasks_late_first \<and>
   monte_carlo_schedule tasks_late_first 1 zero_draws 0 = Inl (KeyError ''Build'') \<and>
   zero_variance tasks_negative \<and> preds_first {} tasks_negative \<and>
   schedule_replication tasks_negative zero_draws 0 = Inr (- 2, 2) \<and>
   dep_path tasks_negative [''B''] \<and> path_length tasks_negative [''B''] = 3 \<and>
   zero_variance tasks_tenth \<and> preds_first {} tasks_tenth \<and> double_round tenth = tenth \<and>
   schedule_replication tasks_tenth zero_draws 0 = Inr (7205759403792793 / 2 ^ 56, 1) \<and>
   dep_path tasks_tenth [''A''] \<and> path_length tasks_tenth [''A''] = 7205759403792794 / 2 ^ 56"
proof -
  have "zero_variance tasks_late_first \<and> \<not> has_cycle tasks_late_first \<and>
   \<not> unknown_predecessor tasks_late_first \<and>
   monte_carlo_schedule tasks_late_first 1 zero_draws 0 = Inl (KeyError ''Build'') \<and>
   zero_variance tasks_negative \<and> preds_first {} tasks_negative \<and>
   schedule_replication tasks_negative zero_draws 0 = Inr (- 2, 2) \<and>
   dep_path tasks_negative [''B''] \<and> path_length tasks_negative [''B''] = 3"
    using tasks_late_first_acyclic
    by (simp add: tasks_late_first_def tasks_negative_def zero_variance_def
        monte_carlo_schedule_def schedule_replication_def sample_task_duration_def
        pert_mean_def pert_std_dev_def start_time_of_def Let_def
        path_length_def most_likely_of_def float_ops)
  moreover have "zero_variance tasks_tenth \<and> preds_first {} tasks_tenth \<and>
      dep_path tasks_tenth [''A''] \<and> path_length tasks_tenth [''A''] = 7205759403792794 / 2 ^ 56"
    by (simp add: tasks_tenth_def zero_variance_def path_length_def most_likely_of_def tenth_def)
  ultimately show ?thesis
    using tenth_double tasks_tenth_replication[of zero_draws] by simp
qed

text \<open>
  Claim C5, as the code has it. For a non-empty dictionary with \<open>o = m = p\<close> in every
  triple whose insertion order lists every task after its predecessors, and whose
  durations are such that the double arithmetic of a replication is exact (multiples
  of one power of two, with six times the sum of their absolute values below
  \<open>2 ^ 53\<close> such multiples; for instance integers), there is one value \<open>cp\<close> that
  every replication returns, whatever the draws: the greatest length of a dependency
  chain that begins at a task without predecessors, each task weighted by \<open>m\<close>. When
  no \<open>m\<close> is negative, \<open>cp\<close> bounds the length of every dependency path, so it is the
  longest-path value of the graph.
\<close>

theorem zero_variance_critical_path:
  assumes d: "distinct (map fst tasks)" and zv: "zero_variance tasks" and ne: "tasks \<noteq> []"
    and pf: "preds_first {} tasks" and ex: "exact_durations e tasks"
  shows "\<exists>cp. longest_chain tasks cp \<and>
           (nonneg_durations tasks \<longrightarrow>
              (\<forall>path. dep_path tasks path \<longrightarrow> path_length tasks path \<le> cp)) \<and>
           (\<forall>z i. schedule_replication tasks z i = Inr (cp, i + length tasks)) \<and>
           (\<forall>z i n. monte_carlo_schedule tasks n z i =
                      Inr (replicate (nat n) cp, i + nat n * length tasks))"
proof -
  from zero_variance_replication[OF d zv ne pf ex, of zero_draws 0] obtain cp where
    lc: "longest_chain tasks cp"
    and gen: "nonneg_durations tasks \<longrightarrow>
              (\<forall>path. dep_path tasks path \<longrightarrow> path_length tasks path \<le> cp)"
    by blast
  have rep: "schedule_replication tasks z i = Inr (cp, i + length tasks)" for z i
  proof -
    from zero_variance_replication[OF d zv ne pf ex, of z i] obtain cp' where
      r: "schedule_replication tasks z i = Inr (cp', i + length tasks)"
      and lc': "longest_chain tasks cp'" by blast
    from longest_chain_unique[OF lc' lc] r show ?thesis by simp
  qed
  have "monte_carlo_schedule tasks n z i = Inr (replicate (nat n) cp, i + nat n * length tasks)"
    for z i n
    unfolding monte_carlo_schedule_def
    using schedule_simulations_loop_const[of tasks z cp "length tasks" "nat n" i "[]"] rep
    by simp
  with lc gen rep show ?thesis by blast
qed

text \<open>
  The statement of C5 for the notebook's graph with the durations fixed to \<open>4\<close>,
  \<open>5\<close>, \<open>2\<close> and \<open>3\<close>: the critical path A, B, D has length \<open>12\<close>.
\<close>

theorem zero_variance_critical_path_witness:
  "distinct (map fst tasks_fixed) \<and> zero_variance tasks_fixed \<and> tasks_fixed \<noteq> [] \<and>
   preds_first {} tasks_fixed \<and> exact_durations 0 tasks_fixed \<and>
   nonneg_durations tasks_fixed \<and>
   longest_chain tasks_fixed 12 \<and>
   dep_path tasks_fixed [''Task C'', ''Task D''] \<and>
   path_length tasks_fixed [''Task C'', ''Task D''] \<le> 12 \<and>
   schedule_replication tasks_fixed normal_draws 0 = Inr (12, 4) \<and>
   monte_carlo_schedule tasks_fixed 2 normal_draws 0 = Inr ([12, 12], 8)"
proof -
  from tasks_fixed_wf have w: "distinct (map fst tasks_fixed)" "zero_variance tasks_fixed"
    "tasks_fixed \<noteq> []" "preds_first {} tasks_fixed" by simp_all
  from zero_variance_critical_path[OF w tasks_fixed_exact] obtain cp where
    lc: "longest_chain tasks_fixed cp"
    and gen: "nonneg_durations tasks_fixed \<longrightarrow>
              (\<forall>path. dep_path tasks_fixed path \<longrightarrow> path_length tasks_fixed path \<le> cp)"
    and rep: "\<forall>z i. schedule_replication tasks_fixed z i = Inr (cp, i + length tasks_fixed)"
    and mc: "\<forall>z i n. monte_carlo_schedule tasks_fixed n z i =
                      Inr (replicate (nat n) cp, i + nat n * length tasks_fixed)"
    by blast
  from rep tasks_fixed_replication have cp: "cp = 12" by simp
  from mc have "monte_carlo_schedule tasks_fixed 2 normal_draws 0 =
      Inr (replicate (nat 2) cp, 0 + nat 2 * length tasks_fixed)" by blast
  then have run: "monte_carlo_schedule tasks_fixed 2 normal_draws 0 = Inr ([12, 12], 8)"
    by (simp add: cp tasks_fixed_def numeral_2_eq_2)
  from gen tasks_fixed_nonneg tasks_fixed_path
  have "path_length tasks_fixed [''Task C'', ''Task D''] \<le> cp" by blast
  with w lc tasks_fixed_nonneg tasks_fixed_path tasks_fixed_replication run tasks_fixed_exact
  show ?thesis
    unfolding cp by blast
qed


section \<open>Properties of the radiation transport simulation\<close>

subsection \<open>The scattering probability and the errors of a run\<close>

lemma walk_iteration_scattering:
  "walk_iteration a s D u i p = walk_iteration a s' D u i p"
  by (simp add: walk_iteration_def Let_def)

lemma particle_walk_scattering_Some:
  assumes "particle_walk a s D u i p = Some y"
  shows "particle_walk a s' D u i p = Some y"
proof (rule particle_walk.raw_induct
    [where P = "\<lambda>a s D u i p y. particle_walk a s' D u i p = Some y", OF _ assms])
  fix f a s D u i p y
  assume IH: "\<And>a s D u i p y. f a s D u i p = Some y \<Longrightarrow> particle_walk a s' D u i p = Some y"
    and body: "(case walk_iteration a s D u i p of
        Stop result i' \<Rightarrow> Some (result, i')
      | Continue position' i' \<Rightarrow> f a s D u i' position') = Some y"
  show "particle_walk a s' D u i p = Some y"
  proof (cases "walk_iteration a s D u i p")
    case (Stop r i')
    then have "walk_iteration a s' D u i p = Stop r i'"
      using walk_iteration_scattering by metis
    with Stop body show ?thesis
      by (subst particle_walk.simps) simp
  next
    case (Continue p' i')
    then have w: "walk_iteration a s' D u i p = Continue p' i'"
      using walk_iteration_scattering by metis
    from Continue body have "f a s D u i' p' = Some y" by simp
    then have "particle_walk a s' D u i' p' = Some y" by (rule IH)
    with w show ?thesis
      by (subst particle_walk.simps) simp
  qed
qed

lemma particle_walk_scattering:
  "particle_walk a s D u i p = particle_walk a s' D u i p"
proof (cases "particle_walk a s D u i p")
  case None
  show ?thesis
  proof (cases "particle_walk a s' D u i p")
    case None
    with \<open>particle_walk a s D u i p = None\<close> show ?thesis by simp
  next
    case (Some y)
    then have "particle_walk a s D u i p = Some y"
      by (rule particle_walk_scattering_Some)
    with Some show ?thesis by simp
  qed
next
  case (Some y)
  then have "particle_walk a s' D u i p = Some y"
    by (rule particle_walk_scattering_Some)
  with Some show ?thesis by simp
qed

lemma particles_loop_scattering:
  "particles_loop n a s D u i ts = particles_loop n a s' D u i ts"
proof (induction n arbitrary: i ts)
  case 0
  show ?case by simp
next
  case (Suc n)
  show ?case
    by (simp add: particle_walk_scattering[of a s D u i "Fin 0" s'] Suc
        split: option.splits prod.splits outcome.splits)
qed

lemma particles_loop_length:
  "particles_loop n a s D u i ts = Some (ts', i') \<Longrightarrow>
     length ts \<le> length ts' \<and> length ts' \<le> length ts + n"
proof (induction n arbitrary: i ts)
  case 0
  then show ?case by simp
next
  case (Suc n)
  then show ?case
    by (fastforce split: option.splits outcome.splits prod.splits)
qed

lemma transport_error:
  "monte_carlo_radiation_transport n a s D u i = Some (Inl e) \<Longrightarrow> n = 0 \<and> e = ZeroDivisionError"
  by (auto simp: monte_carlo_radiation_transport_def split: option.splits prod.splits if_splits)

lemma transport_scattering:
  "monte_carlo_radiation_transport n a s D u i = monte_carlo_radiation_transport n a s' D u i"
  by (simp add: monte_carlo_radiation_transport_def particles_loop_scattering[of _ a s D u i "[]" s'])

lemma transport_zero:
  "monte_carlo_radiation_transport 0 a s D u i = Some (Inl ZeroDivisionError)"
  by (simp add: monte_carlo_radiation_transport_def)

lemma transport_rate_range:
  assumes "0 < n" and "monte_carlo_radiation_transport n a s D u i = Some (Inr (r, i'))"
  shows "0 \<le> r \<and> r \<le> 1"
proof -
  from assms obtain ts where
    loop: "particles_loop (nat n) a s D u i [] = Some (ts, i')"
    and r: "r = fdiv (real (length ts)) (real_of_int n)"
    by (auto simp: monte_carlo_radiation_transport_def split: option.splits prod.splits if_splits)
  from particles_loop_length[OF loop] have "length ts \<le> nat n" by simp
  with \<open>0 < n\<close> have "real (length ts) \<le> real_of_int n" by linarith
  with \<open>0 < n\<close> have q: "0 \<le> real (length ts) / real_of_int n"
    "real (length ts) / real_of_int n \<le> 1" by simp_all
  from double_round_nonneg[OF q(1)] double_round_le_one[OF q(2)] r show ?thesis
    by (simp add: fdiv_def)
qed

subsection \<open>Steps and positions\<close>

lemma neg_log_unit:
  assumes "0 \<le> x" and "x < 1"
  shows "neg_log x = PInf \<or> (\<exists>t. neg_log x = Fin t \<and> 0 \<le> t \<and> double_round t = t)"
proof (cases "x = 0")
  case True
  then show ?thesis by (simp add: neg_log_def)
next
  case False
  with assms have "0 < x" by simp
  with \<open>x < 1\<close> have "0 \<le> - ln x" by simp
  from double_round_nonneg[OF this] False show ?thesis
    by (simp add: neg_log_def double_round_idem)
qed

text \<open>
  One \<open>position += step\<close> from a position that is a double: the new position is
  \<open>+\<infinity>\<close> or a double that is not smaller.
\<close>

lemma advance_cases:
  assumes "0 \<le> u i" and "u i < 1" and "double_round p = p"
  shows "advance u i (Fin p) = PInf \<or>
         (\<exists>p'. advance u i (Fin p) = Fin p' \<and> p \<le> p' \<and> double_round p' = p')"
proof -
  from neg_log_unit[OF assms(1,2)] show ?thesis
  proof
    assume "neg_log (u i) = PInf"
    then show ?thesis by (simp add: advance_def)
  next
    assume "\<exists>t. neg_log (u i) = Fin t \<and> 0 \<le> t \<and> double_round t = t"
    then obtain t where t: "neg_log (u i) = Fin t" "0 \<le> t" by auto
    from fadd_ge_left[OF assms(3) t(2)] t(1) show ?thesis
      by (simp add: advance_def)
  qed
qed

lemma xge_advance:
  assumes "0 \<le> u i" and "u i < 1" and "double_round p = p" and "d \<le> p"
  shows "xge (advance u i (Fin p)) (Fin d)"
  using advance_cases[of u i p] assms by auto

lemma walk_iteration_Continue:
  assumes "walk_iteration a s D u i position = Continue position' i'"
  shows "position' = advance u i position \<and> i' = Suc (Suc i) \<and> \<not> xge position' D
         \<and> \<not> u (Suc i) < a"
  using assms by (auto simp: walk_iteration_def Let_def split: if_splits)

lemma not_xge_Fin: "\<not> xge x D \<Longrightarrow> \<exists>p. x = Fin p"
  by (cases x) auto

lemma in_flight_finite:
  assumes "in_flight a s D u i0 i position" and "\<forall>k. 0 \<le> u k \<and> u k < 1"
  shows "\<exists>p. position = Fin p \<and> 0 \<le> p \<and> double_round p = p"
  using assms
proof (induction rule: in_flight.induct)
  case start
  show ?case by simp
next
  case (loop i position position' i')
  then obtain p where p: "position = Fin p" "0 \<le> p" "double_round p = p" by auto
  from walk_iteration_Continue[OF loop.hyps(2)]
  have adv: "position' = advance u i position" and nge: "\<not> xge position' D" by auto
  from not_xge_Fin[OF nge] obtain p' where p': "position' = Fin p'" by auto
  from loop.prems have "0 \<le> u i" "u i < 1" by auto
  with advance_cases[of u i p] p(3) adv p p' have "p \<le> p'" "double_round p' = p'" by auto
  with p p' show ?case by simp
qed

text \<open>The walk of the model passes through exactly the states of \<open>in_flight\<close>.\<close>

lemma in_flight_walk:
  assumes "in_flight a s D u i0 i position"
  shows "particle_walk a s D u i0 (Fin 0) = particle_walk a s D u i position"
  using assms
proof (induction rule: in_flight.induct)
  case start
  show ?case by simp
next
  case (loop i position position' i')
  have "particle_walk a s D u i position = particle_walk a s D u i' position'"
    by (subst particle_walk.simps) (simp add: loop.hyps(2))
  with loop.IH show ?case by simp
qed

lemma walk_transmits_at_once:
  assumes "0 \<le> u i" and "u i < 1" and "double_round p = p" and "d \<le> p"
  shows "particle_walk a s (Fin d) u i (Fin p) = Some (Transmitted (advance u i (Fin p)), Suc i)"
  using xge_advance[of u i p d] assms
  by (subst particle_walk.simps) (simp add: walk_iteration_def Let_def)

subsection \<open>Runs on concrete draws\<close>

lemma demo_draws_unit: "\<forall>k. 0 \<le> demo_draws k \<and> demo_draws k < 1"
  by (simp add: demo_draws_def)

text \<open>The steps \<open>-log(1/2)\<close> and \<open>-log(1/4)\<close>, as doubles near \<open>0.69\<close> and \<open>1.39\<close>.\<close>

lemma demo_steps:
  "\<exists>t0 t2. neg_log (1 / 2) = Fin t0 \<and> neg_log (1 / 4) = Fin t2 \<and>
     1 / 2 \<le> t0 \<and> t0 \<le> 1 \<and> 1 \<le> t2 \<and> t2 \<le> 2 \<and> double_round t0 = t0"
proof -
  have l2: "- ln (1 / 2 :: real) = ln 2" by (simp add: ln_div)
  have "ln (4::real) = ln (2 ^ 2)" by simp
  also have "\<dots> = 2 * ln 2" by (subst ln_realpow) simp_all
  finally have l4: "- ln (1 / 4 :: real) = 2 * ln 2" by (simp add: ln_div)
  from ln_2_ge_half ln_2_le_one have b: "1 \<le> 2 * ln (2::real)" "2 * ln (2::real) \<le> 2"
    by simp_all
  from double_round_mono[OF ln_2_ge_half] double_round_mono[OF ln_2_le_one]
    double_round_mono[OF b(1)] double_round_mono[OF b(2)]
  show ?thesis by (simp add: neg_log_def l2 l4 double_round_idem)
qed

lemma demo_walk_1:
  assumes "1 / 4 < a" and "a \<le> 3 / 4"
  shows "particle_walk a s (Fin 5) demo_draws 0 (Fin 0) = Some (Absorbed, 4)"
proof -
  from demo_steps obtain t0 t2 where t: "neg_log (1 / 2) = Fin t0" "neg_log (1 / 4) = Fin t2"
    "1 / 2 \<le> t0" "t0 \<le> 1" "1 \<le> t2" "t2 \<le> 2" "double_round t0 = t0" by blast
  from t have it1: "walk_iteration a s (Fin 5) demo_draws 0 (Fin 0) = Continue (Fin t0) 2"
    using assms
    by (simp add: walk_iteration_def advance_def demo_draws_def Let_def numeral_2_eq_2)
  from t double_round_mono[of "t0 + t2" 3] have "fadd t0 t2 \<le> 3" by (simp add: fadd_def)
  with t have it2: "walk_iteration a s (Fin 5) demo_draws 2 (Fin t0) = Stop Absorbed 4"
    using assms
    by (simp add: walk_iteration_def advance_def demo_draws_def Let_def)
  show ?thesis
    apply (subst particle_walk.simps)
    apply (simp add: it1)
    apply (subst particle_walk.simps)
    apply (simp add: it2)
    done
qed

lemma demo_walk_2:
  "particle_walk a s (Fin 5) demo_draws 4 (Fin 0) = Some (Transmitted PInf, 5)"
  apply (subst particle_walk.simps)
  apply (simp add: walk_iteration_def advance_def neg_log_def demo_draws_def Let_def)
  done

lemma demo_run:
  assumes "1 / 4 < a" and "a \<le> 3 / 4"
  shows "monte_carlo_radiation_transport 2 a s (Fin 5) demo_draws 0 = Some (Inr (1 / 2, 5))"
  by (simp add: monte_carlo_radiation_transport_def numeral_2_eq_2 demo_walk_1[OF assms]
      demo_walk_2 fdiv_def)

subsection \<open>Claim C3: validation of the probabilities\<close>

text \<open>
  Claim C3 says that a configuration with \<open>absorptionProb + scatteringProb > 1\<close> is
  rejected with a configuration error before any particle is simulated. The code has no
  such check: with both probabilities \<open>7/10\<close> a run of two particles, the first scattered once
  and then absorbed, the second transmitted, completes and returns the rate \<open>1/2\<close>.
\<close>

theorem no_validation_counterexample:
  "(1::real) < 7 / 10 + 7 / 10 \<and>
   monte_carlo_radiation_transport 2 (7 / 10) (7 / 10) (Fin 5) demo_draws 0 =
     Some (Inr (1 / 2, 5))"
  using demo_run[of "7 / 10" "7 / 10"] by simp

text \<open>
  Claim C3, as the code has it: the probabilities are never validated. The result of a
  run does not depend on \<open>scattering_prob\<close> at all (it is the result for
  \<open>scattering_prob = 0\<close>), whatever the sum of the two probabilities is, and a run
  with \<open>num_particles \<noteq> 0\<close> raises no error, neither before nor during the
  simulation.
\<close>

theorem transport_never_validates:
  "monte_carlo_radiation_transport n a s D u i = monte_carlo_radiation_transport n a 0 D u i \<and>
   (n \<noteq> 0 \<longrightarrow> (\<forall>e. monte_carlo_radiation_transport n a s D u i \<noteq> Some (Inl e)))"
  using transport_scattering[of n a s D u i 0] transport_error[of n a s D u i] by blast

text \<open>The statement of C3 at two particles with \<open>1/2 + 3/4 > 1\<close>.\<close>

theorem transport_never_validates_witness:
  "(2::int) \<noteq> 0 \<and> (1::real) < 1 / 2 + 3 / 4 \<and>
   monte_carlo_radiation_transport 2 (1 / 2) (3 / 4) (Fin 5) demo_draws 0 =
     monte_carlo_radiation_transport 2 (1 / 2) 0 (Fin 5) demo_draws 0 \<and>
   monte_carlo_radiation_transport 2 (1 / 2) (3 / 4) (Fin 5) demo_draws 0 \<noteq>
     Some (Inl ZeroDivisionError)"
  using transport_never_validates[of 2 "1 / 2" "3 / 4" "Fin 5" demo_draws 0] by auto

subsection \<open>Steps that rounding absorbs\<close>

lemma stall_log: "- ln (1 / 16 :: real) = 4 * ln 2"
proof -
  have "ln (16::real) = ln (2 ^ 4)" by simp
  also have "\<dots> = 4 * ln 2" by (subst ln_realpow) simp_all
  finally have "ln (16::real) = 4 * ln 2" .
  moreover have "ln (1 / 16 :: real) = - ln 16" by (simp add: ln_div)
  ultimately show ?thesis by simp
qed

lemma stall_position_double: "double_round stall_position = stall_position"
  by (simp add: stall_position_def double_round_idem)

lemma stall_position_bounds: "2 \<le> stall_position \<and> stall_position \<le> 4"
proof -
  from ln_2_ge_half ln_2_le_one have "2 \<le> 4 * ln (2::real)" "4 * ln (2::real) \<le> 4" by simp_all
  from double_round_mono[OF this(1)] double_round_mono[OF this(2)] show ?thesis
    by (simp add: stall_position_def stall_log)
qed

lemma stall_position_ulp: "1 / 2 ^ 51 \<le> ulp stall_position"
proof -
  have b2: "binade 2 = 1"
    by (rule binade_eqI) simp_all
  from stall_position_bounds have "binade 2 \<le> binade stall_position"
    by (intro binade_mono) simp_all
  with b2 have le: "(2::real) powr of_int (1 - 52) \<le> ulp stall_position"
    unfolding ulp_def by (intro powr_mono) simp_all
  have eq: "(2::real) powr of_int (1 - 52) = 1 / 2 ^ 51"
    by (simp add: powr_minus_divide)
  from le show ?thesis unfolding eq .
qed

lemma stall_step:
  "\<exists>t. neg_log (1 - 1 / 2 ^ 53) = Fin t \<and> 0 \<le> t \<and> t \<le> 3 / 2 ^ 54"
proof -
  define c :: real where "c = 1 - 1 / 2 ^ 53"
  have c: "0 < c" "c < 1" "c \<noteq> 0" by (simp_all add: c_def)
  from c have nonneg: "0 \<le> - ln c" by simp
  from c ln_le_minus_one[of "1 / c"] have "- ln c \<le> 1 / c - 1"
    by (simp add: ln_div)
  also have "1 / c - 1 \<le> 3 / 2 ^ 54" by (simp add: c_def)
  finally have "double_round (- ln c) \<le> double_round (3 / 2 ^ 54)"
    by (rule double_round_mono)
  moreover have "double_round (3 / 2 ^ 54) = 3 / 2 ^ 54"
    using double_round_exact[of 3 "- 54"] by (simp add: powr_minus_divide)
  ultimately have "double_round (- ln c) \<le> 3 / 2 ^ 54" by simp
  with double_round_nonneg[OF nonneg] c(3) show ?thesis
    unfolding c_def by (simp add: neg_log_def)
qed

lemma stall_advance:
  assumes "1 \<le> i"
  shows "advance stall_draws i (Fin stall_position) = Fin stall_position"
proof -
  from stall_step obtain t where t: "neg_log (1 - 1 / 2 ^ 53) = Fin t" "0 \<le> t" "t \<le> 3 / 2 ^ 54"
    by auto
  from stall_position_ulp t(3) have "t < ulp stall_position / 2" by simp
  from double_round_absorb[OF stall_position_double _ t(2) this] stall_position_bounds
  have "fadd stall_position t = stall_position" by (simp add: fadd_def)
  with t(1) assms show ?thesis by (simp add: advance_def stall_draws_def)
qed

lemma stall_first_iteration:
  "walk_iteration 0 s (Fin 10) stall_draws 0 (Fin 0) = Continue (Fin stall_position) 2"
proof -
  have "advance stall_draws 0 (Fin 0) = Fin stall_position"
    by (simp add: advance_def stall_draws_def neg_log_def stall_position_def double_round_idem)
  with stall_position_bounds show ?thesis
    by (simp add: walk_iteration_def Let_def stall_draws_def numeral_2_eq_2)
qed

lemma stall_iteration:
  assumes "1 \<le> i"
  shows "walk_iteration 0 s (Fin 10) stall_draws i (Fin stall_position) =
           Continue (Fin stall_position) (Suc (Suc i))"
  using stall_advance[OF assms] stall_position_bounds
  by (simp add: walk_iteration_def Let_def stall_draws_def)

lemma stall_in_flight: "in_flight 0 s (Fin 10) stall_draws 0 2 (Fin stall_position)"
  by (rule in_flight.loop[OF in_flight.start stall_first_iteration])

lemma stall_draws_range: "\<forall>k. 0 \<le> stall_draws k \<and> stall_draws k \<le> 1 - 1 / 2 ^ 53"
  by (simp add: stall_draws_def)

subsection \<open>Claim C4: the iteration cap\<close>








subsection \<open>Claim C7: a medium of thickness zero\<close>

lemma particles_loop_all_transmitted:
  assumes "\<forall>k. 0 \<le> u k \<and> u k < 1"
  shows "\<exists>ts'. particles_loop n a s (Fin 0) u i ts = Some (ts', i + n) \<and>
           length ts' = length ts + n"
proof (induction n arbitrary: i ts)
  case 0
  show ?case by simp
next
  case (Suc n)
  from assms have "0 \<le> u i" "u i < 1" by auto
  then have w: "particle_walk a s (Fin 0) u i (Fin 0) =
      Some (Transmitted (advance u i (Fin 0)), Suc i)"
    using walk_transmits_at_once[of u i 0 0 a s] by simp
  from Suc.IH[of "Suc i" "ts @ [advance u i (Fin 0)]"] w show ?case by auto
qed

text \<open>
  Claim C7: for every \<open>numParticles \<ge> 1\<close>, with \<open>absorptionProb = 0\<close>,
  \<open>scatteringProb = 0\<close> and \<open>maxDistance = 0\<close>, the run returns the transmission rate
  exactly \<open>1\<close>: every particle is transmitted at its first step check, on one draw. The
  draws are those of \<open>np.random.rand()\<close>, in \<open>[0, 1)\<close>.
\<close>

theorem transmission_rate_one:
  assumes "1 \<le> num_particles" and "\<forall>k. 0 \<le> u k \<and> u k < 1"
  shows "monte_carlo_radiation_transport num_particles 0 0 (Fin 0) u i =
           Some (Inr (1, i + nat num_particles))"
proof -
  from particles_loop_all_transmitted[OF assms(2), of "nat num_particles" 0 0 i "[]"]
  obtain ts where loop: "particles_loop (nat num_particles) 0 0 (Fin 0) u i [] =
      Some (ts, i + nat num_particles)" and len: "length ts = nat num_particles"
    by auto
  from len assms(1) have eq: "real (length ts) = real_of_int num_particles" by simp
  from assms(1) have "real_of_int num_particles \<noteq> 0" by simp
  then have "real (length ts) / real_of_int num_particles = 1" unfolding eq by simp
  then have rate: "fdiv (real (length ts)) (real_of_int num_particles) = 1"
    by (simp only: fdiv_def double_round_one)
  from assms(1) have "num_particles \<noteq> 0" by simp
  then show ?thesis
    unfolding monte_carlo_radiation_transport_def loop
    by (simp only: rate option.case prod.case if_False)
qed

text \<open>The statement of C7 for three particles on the draws of \<open>demo_draws\<close>.\<close>

theorem transmission_rate_one_witness:
  "(1::int) \<le> 3 \<and> (\<forall>k. 0 \<le> demo_draws k \<and> demo_draws k < 1) \<and>
   monte_carlo_radiation_transport 3 0 0 (Fin 0) demo_draws 0 = Some (Inr (1, 3))"
  using transmission_rate_one[of 3 demo_draws 0] demo_draws_unit by simp

subsection \<open>Claim C8: the position while in flight\<close>

lemma neg_log_positive:
  assumes "0 \<le> x" and "x \<le> 1 - 1 / 2 ^ 53"
  shows "xlt (Fin 0) (neg_log x)"
proof (cases "x = 0")
  case True
  then show ?thesis by (simp add: neg_log_def)
next
  case False
  with assms have "0 < x" by simp
  from ln_le_minus_one[OF this] assms(2) have "1 / 2 ^ 53 \<le> - ln x" by simp
  from double_round_mono[OF this] double_round_exact[of 1 "- 53"]
  have "1 / 2 ^ 53 \<le> double_round (- ln x)" by (simp add: powr_minus_divide)
  moreover have "(0::real) < 1 / 2 ^ 53" by simp
  ultimately have "0 < double_round (- ln x)" by linarith
  with False show ?thesis by (simp add: neg_log_def)
qed

text \<open>
  Claim C8 says that in every walk and at every iteration of its loop the position
  strictly increases while the particle is in flight. The added step is strictly
  positive, but the float addition \<open>position += step\<close> can round the sum back to the
  old position. With \<open>absorption_prob = 0\<close>, \<open>max_distance = 10\<close> and the draws
  \<open>stall_draws\<close> (\<open>1/16\<close>, then always \<open>1 - 1 / 2 ^ 53\<close>) the walk is in flight at
  draw index \<open>2\<close> with position \<open>stall_position\<close> (the double nearest to \<open>log 16\<close>),
  and its next iteration goes on with the same position: the position has not
  increased.
\<close>

theorem position_stalls_counterexample:
  "in_flight 0 0 (Fin 10) stall_draws 0 2 (Fin stall_position) \<and>
   walk_iteration 0 0 (Fin 10) stall_draws 2 (Fin stall_position) =
     Continue (Fin stall_position) 4 \<and>
   in_flight 0 0 (Fin 10) stall_draws 0 4 (Fin stall_position) \<and>
   \<not> xlt (Fin stall_position) (advance stall_draws 2 (Fin stall_position))"
proof -
  have it: "walk_iteration 0 0 (Fin 10) stall_draws 2 (Fin stall_position) =
      Continue (Fin stall_position) 4"
    using stall_iteration[of 2 0] by simp
  have adv: "advance stall_draws 2 (Fin stall_position) = Fin stall_position"
    by (rule stall_advance) simp
  from stall_in_flight[of 0] in_flight.loop[OF stall_in_flight it] it adv show ?thesis
    by simp
qed

text \<open>
  Claim C8, as the code has it: in every walk (the one that \<open>particles_loop\<close> runs
  for a particle, from position \<open>0\<close>) and at every iteration of its loop the position
  is never negative, each added step \<open>-log(U)\<close> is strictly positive, and the position
  never decreases: \<open>position += step\<close> gives a position that is at least the old one,
  and so does the next in-flight state. The draws are those of \<open>np.random.rand()\<close>,
  doubles in \<open>[0, 1)\<close>, so at most \<open>1 - 1 / 2 ^ 53\<close>.
\<close>

theorem position_never_decreases:
  assumes "\<forall>k. 0 \<le> u k \<and> u k \<le> 1 - 1 / 2 ^ 53"
    and "in_flight a s D u i0 i position"
  shows "particle_walk a s D u i0 (Fin 0) = particle_walk a s D u i position \<and>
         particles_loop (Suc n) a s D u i0 ts =
           (case particle_walk a s D u i position of
              None \<Rightarrow> None
            | Some (Transmitted x, i') \<Rightarrow> particles_loop n a s D u i' (ts @ [x])
            | Some (Absorbed, i') \<Rightarrow> particles_loop n a s D u i' ts) \<and>
         xge position (Fin 0) \<and> xlt (Fin 0) (neg_log (u i)) \<and>
         xge (advance u i position) position \<and>
         (\<forall>position' i'. walk_iteration a s D u i position = Continue position' i' \<longrightarrow>
             xge position' position)"
proof -
  have unit: "\<forall>k. 0 \<le> u k \<and> u k < 1"
  proof
    fix k
    from assms(1) have "0 \<le> u k" "u k \<le> 1 - 1 / 2 ^ 53" by auto
    moreover have "(1::real) - 1 / 2 ^ 53 < 1" by simp
    ultimately show "0 \<le> u k \<and> u k < 1" by linarith
  qed
  from in_flight_finite[OF assms(2) unit] obtain p where
    p: "position = Fin p" "0 \<le> p" "double_round p = p" by auto
  have walk: "particle_walk a s D u i0 (Fin 0) = particle_walk a s D u i position"
    by (rule in_flight_walk[OF assms(2)])
  from unit have "0 \<le> u i" "u i < 1" by auto
  with xge_advance[of u i p p] p have ge: "xge (advance u i position) position" by simp
  from assms(1) have "0 \<le> u i" "u i \<le> 1 - 1 / 2 ^ 53" by auto
  then have step: "xlt (Fin 0) (neg_log (u i))" by (rule neg_log_positive)
  have "xge position (Fin 0)" using p by simp
  moreover have "\<forall>position' i'. walk_iteration a s D u i position = Continue position' i' \<longrightarrow>
             xge position' position"
    using ge walk_iteration_Continue by blast
  moreover have "particles_loop (Suc n) a s D u i0 ts =
           (case particle_walk a s D u i position of
              None \<Rightarrow> None
            | Some (Transmitted x, i') \<Rightarrow> particles_loop n a s D u i' (ts @ [x])
            | Some (Absorbed, i') \<Rightarrow> particles_loop n a s D u i' ts)"
    by (simp only: particles_loop.simps walk)
  ultimately show ?thesis using walk ge step by blast
qed

text \<open>
  The statement of C8 at the second iteration of the walk on \<open>stall_draws\<close>, in flight
  at position \<open>stall_position\<close>.
\<close>

theorem position_never_decreases_witness:
  "(\<forall>k. 0 \<le> stall_draws k \<and> stall_draws k \<le> 1 - 1 / 2 ^ 53) \<and>
   in_flight 0 0 (Fin 10) stall_draws 0 2 (Fin stall_position) \<and>
   particle_walk 0 0 (Fin 10) stall_draws 0 (Fin 0) =
     particle_walk 0 0 (Fin 10) stall_draws 2 (Fin stall_position) \<and>
   xge (Fin stall_position) (Fin 0) \<and> xlt (Fin 0) (neg_log (stall_draws 2)) \<and>
   xge (advance stall_draws 2 (Fin stall_position)) (Fin stall_position)"
  using position_never_decreases[OF stall_draws_range stall_in_flight, of 0 0 "[]"]
    stall_draws_range stall_in_flight[of 0]
  by simp

subsection \<open>Claim C10: the final division\<close>

text \<open>
  Claim C10: with \<open>numParticles = 0\<close> the run fails with a division-by-zero error while
  computing \<open>len(transmissions) / num_particles\<close>; for any other count the division
  does not fail, and for \<open>numParticles > 0\<close> a returned transmission rate lies in
  \<open>[0, 1]\<close>.
\<close>

theorem transport_division:
  "monte_carlo_radiation_transport 0 a s D u i = Some (Inl ZeroDivisionError) \<and>
   (n \<noteq> 0 \<longrightarrow> monte_carlo_radiation_transport n a s D u i \<noteq> Some (Inl ZeroDivisionError)) \<and>
   (0 < n \<and> monte_carlo_radiation_transport n a s D u i = Some (Inr (r, i')) \<longrightarrow>
      0 \<le> r \<and> r \<le> 1)"
  using transport_zero[of a s D u i] transport_error[of n a s D u i ZeroDivisionError]
    transport_rate_range[of n a s D u i r i'] by blast

text \<open>The statement of C10 for two particles, one absorbed and one transmitted.\<close>

theorem transport_division_witness:
  "(2::int) \<noteq> 0 \<and> (0::int) < 2 \<and>
   monte_carlo_radiation_transport 2 (1 / 2) (1 / 2) (Fin 5) demo_draws 0 = Some (Inr (1 / 2, 5)) \<and>
   (0::real) \<le> 1 / 2 \<and> (1 / 2 :: real) \<le> 1"
  using transport_division[of "1 / 2" "1 / 2" "Fin 5" demo_draws 0 2 "1 / 2" 5] demo_run[of "1 / 2"]
  by simp


end
